theory Spec2Isabelle
  imports Complex_Main
begin

section \<open>JavaScript numbers\<close>

text \<open>
  The calculator computes with JavaScript numbers: IEEE 754 doubles.  A number is a
  finite value, one of the two infinities, or NaN.  Every arithmetic operation rounds
  its exact result to the nearest double, ties to the even significand, with gradual
  underflow, and overflows to an infinity.  One thing is left out: zero has no sign
  (the code never divides by a zero: the divisors are the constant 144, an area that
  is \<open>> 0\<close>, a load that is \<open>> 0\<close> and a maximum with \<open>1e-6\<close>).
\<close>

subsection \<open>Rounding to a double\<close>

text \<open>Rounding to the nearest integer, a tie going to the even one.\<close>

definition round_half_even :: "real \<Rightarrow> int" where
  "round_half_even q =
     (let f = \<lfloor>q\<rfloor> in
      if q - of_int f < 1 / 2 then f
      else if 1 / 2 < q - of_int f then f + 1
      else if even f then f else f + 1)"

text \<open>
  The exponent of a positive magnitude, not below that of the subnormal numbers, and the
  unit in the last place of its 53-bit significand.
\<close>

definition expo :: "real \<Rightarrow> int" where
  "expo x = max \<lfloor>log 2 x\<rfloor> (- 1022)"

definition ulp :: "real \<Rightarrow> real" where
  "ulp x = 2 powr of_int (expo x - 52)"

definition round_mag :: "real \<Rightarrow> real" where
  "round_mag x = of_int (round_half_even (x / ulp x)) * ulp x"

definition round_double :: "real \<Rightarrow> real" where
  "round_double r = sgn r * round_mag \<bar>r\<bar>"

text \<open>The reals that are doubles, and the grid of multiples of the least positive one.\<close>

definition is_double :: "real \<Rightarrow> bool" where
  "is_double x = (round_double x = x)"

definition on_grid :: "real \<Rightarrow> bool" where
  "on_grid x = (\<exists>j::int. x = of_int j * 2 powr of_int (- 1074))"

subsection \<open>Numbers and their operations\<close>

text \<open>
  A finite value \<open>Fin x\<close> produced by an operation is a double; an input may be any
  real, and is a number of the language when \<open>is_double x\<close>.
\<close>

datatype jsnum = Fin real | PInf | NInf | NaN

text \<open>
  An exact result whose magnitude reaches \<open>2^1024 - 2^970\<close> (the largest double
  plus half a unit in its last place) becomes an infinity; any other is rounded.
\<close>

definition overflow_bound :: real where
  "overflow_bound = 2 ^ 1024 - 2 ^ 970"

definition fin_result :: "real \<Rightarrow> jsnum" where
  "fin_result r =
     (if overflow_bound \<le> r then PInf
      else if r \<le> - overflow_bound then NInf
      else Fin (round_double r))"

fun js_double :: "jsnum \<Rightarrow> bool" where
  "js_double (Fin x) = is_double x"
| "js_double PInf = True"
| "js_double NInf = True"
| "js_double NaN = True"

fun js_neg :: "jsnum \<Rightarrow> jsnum" where
  "js_neg (Fin x) = Fin (- x)"
| "js_neg PInf = NInf"
| "js_neg NInf = PInf"
| "js_neg NaN = NaN"

fun js_add :: "jsnum \<Rightarrow> jsnum \<Rightarrow> jsnum" where
  "js_add (Fin x) (Fin y) = fin_result (x + y)"
| "js_add (Fin x) PInf = PInf"
| "js_add (Fin x) NInf = NInf"
| "js_add PInf (Fin y) = PInf"
| "js_add PInf PInf = PInf"
| "js_add PInf NInf = NaN"
| "js_add NInf (Fin y) = NInf"
| "js_add NInf PInf = NaN"
| "js_add NInf NInf = NInf"
| "js_add NaN b = NaN"
| "js_add a NaN = NaN"

definition js_sub :: "jsnum \<Rightarrow> jsnum \<Rightarrow> jsnum" where
  "js_sub a b = js_add a (js_neg b)"

fun js_mul :: "jsnum \<Rightarrow> jsnum \<Rightarrow> jsnum" where
  "js_mul (Fin x) (Fin y) = fin_result (x * y)"
| "js_mul (Fin x) PInf = (if 0 < x then PInf else if x < 0 then NInf else NaN)"
| "js_mul (Fin x) NInf = (if 0 < x then NInf else if x < 0 then PInf else NaN)"
| "js_mul PInf (Fin y) = (if 0 < y then PInf else if y < 0 then NInf else NaN)"
| "js_mul NInf (Fin y) = (if 0 < y then NInf else if y < 0 then PInf else NaN)"
| "js_mul PInf PInf = PInf"
| "js_mul PInf NInf = NInf"
| "js_mul NInf PInf = NInf"
| "js_mul NInf NInf = PInf"
| "js_mul NaN b = NaN"
| "js_mul a NaN = NaN"

text \<open>
  Division.  A finite dividend over zero gives an infinity of the dividend's sign (the
  zero being taken as positive) and zero over zero gives NaN; no exception is raised.
\<close>

fun js_div :: "jsnum \<Rightarrow> jsnum \<Rightarrow> jsnum" where
  "js_div (Fin x) (Fin y) =
     (if y = 0 then (if x = 0 then NaN else if 0 < x then PInf else NInf)
      else fin_result (x / y))"
| "js_div (Fin x) PInf = Fin 0"
| "js_div (Fin x) NInf = Fin 0"
| "js_div PInf (Fin y) = (if 0 \<le> y then PInf else NInf)"
| "js_div NInf (Fin y) = (if 0 \<le> y then NInf else PInf)"
| "js_div PInf PInf = NaN"
| "js_div PInf NInf = NaN"
| "js_div NInf PInf = NaN"
| "js_div NInf NInf = NaN"
| "js_div NaN b = NaN"
| "js_div a NaN = NaN"

text \<open>The comparisons \<open>a < b\<close> and \<open>a <= b\<close>; both are false when a side is NaN.
  \<open>a > b\<close> is written \<open>js_lt b a\<close>.\<close>

fun js_lt :: "jsnum \<Rightarrow> jsnum \<Rightarrow> bool" where
  "js_lt (Fin x) (Fin y) = (x < y)"
| "js_lt (Fin x) PInf = True"
| "js_lt (Fin x) NInf = False"
| "js_lt PInf b = False"
| "js_lt NInf (Fin y) = True"
| "js_lt NInf PInf = True"
| "js_lt NInf NInf = False"
| "js_lt NaN b = False"
| "js_lt a NaN = False"

fun js_le :: "jsnum \<Rightarrow> jsnum \<Rightarrow> bool" where
  "js_le (Fin x) (Fin y) = (x \<le> y)"
| "js_le (Fin x) PInf = True"
| "js_le (Fin x) NInf = False"
| "js_le PInf PInf = True"
| "js_le PInf (Fin y) = False"
| "js_le PInf NInf = False"
| "js_le NInf (Fin y) = True"
| "js_le NInf PInf = True"
| "js_le NInf NInf = True"
| "js_le NaN b = False"
| "js_le a NaN = False"

fun isFinite :: "jsnum \<Rightarrow> bool" where
  "isFinite (Fin x) = True"
| "isFinite PInf = False"
| "isFinite NInf = False"
| "isFinite NaN = False"

text \<open>\<open>Math.max\<close> of two numbers and \<open>Math.ceil\<close>.\<close>

fun Math_max :: "jsnum \<Rightarrow> jsnum \<Rightarrow> jsnum" where
  "Math_max NaN b = NaN"
| "Math_max a NaN = NaN"
| "Math_max a b = (if js_lt a b then b else a)"

fun Math_ceil :: "jsnum \<Rightarrow> jsnum" where
  "Math_ceil (Fin x) = Fin (of_int \<lceil>x\<rceil>)"
| "Math_ceil PInf = PInf"
| "Math_ceil NInf = NInf"
| "Math_ceil NaN = NaN"

section \<open>Arrays\<close>

text \<open>
  \<open>Array.from(new Set(xs))\<close>: a set keeps the first occurrence of each value, in
  insertion order.
\<close>

fun set_add_all :: "'a list \<Rightarrow> 'a list \<Rightarrow> 'a list" where
  "set_add_all [] seen = seen"
| "set_add_all (x # xs) seen =
     (if x \<in> set seen then set_add_all xs seen else set_add_all xs (seen @ [x]))"

definition array_from_set :: "'a list \<Rightarrow> 'a list" where
  "array_from_set xs = set_add_all xs []"

text \<open>
  \<open>xs.sort(cmp)\<close>: a stable sort; \<open>y\<close> is moved before \<open>x\<close> only when
  \<open>cmp(x, y) > 0\<close>, and a NaN from the comparator counts as zero.  For a consistent
  comparator the result of a stable sort is unique and this insertion sort computes it;
  for an inconsistent one (a NaN key) the language leaves the order to the
  implementation, and the order chosen here is one of the permitted ones.
\<close>

primrec array_insert :: "('a \<Rightarrow> 'a \<Rightarrow> jsnum) \<Rightarrow> 'a \<Rightarrow> 'a list \<Rightarrow> 'a list" where
  "array_insert cmp x [] = [x]"
| "array_insert cmp x (y # ys) =
     (if js_lt (Fin 0) (cmp x y) then y # array_insert cmp x ys else x # y # ys)"

primrec array_sort :: "('a \<Rightarrow> 'a \<Rightarrow> jsnum) \<Rightarrow> 'a list \<Rightarrow> 'a list" where
  "array_sort cmp [] = []"
| "array_sort cmp (x # xs) = array_insert cmp x (array_sort cmp xs)"

section \<open>The calculation helpers\<close>

text \<open>\<open>calcCloudAvgPsf(mountMode, areaFt2, totalCloudWeightLb)\<close>.\<close>

definition calcCloudAvgPsf :: "string \<Rightarrow> jsnum \<Rightarrow> jsnum \<Rightarrow> jsnum" where
  "calcCloudAvgPsf mountMode areaFt2 totalCloudWeightLb =
     (if mountMode = ''distributed'' \<and> js_lt (Fin 0) areaFt2
      then js_div totalCloudWeightLb areaFt2
      else Fin 0)"

record combo =
  channelOC :: jsnum
  clipOC :: jsnum
  tribAreaFt2 :: jsnum
  loadPerClip :: jsnum
  pass :: bool
  safety :: jsnum

record params =
  gridPsf :: jsnum
  allowedChannelSpacings :: "jsnum list"
  allowedClipSpacings :: "jsnum list"
  constrainToStructure :: bool
  structureSpacing :: jsnum
  clipCap :: jsnum

text \<open>The body of the inner loop of \<open>calcCombos\<close>: the combo pushed for one pair.\<close>

definition make_combo :: "jsnum \<Rightarrow> jsnum \<Rightarrow> jsnum \<Rightarrow> jsnum \<Rightarrow> combo" where
  "make_combo g cap ch cl =
     (let trib = js_div (js_mul ch cl) (Fin 144);
          load = js_mul trib g;
          ok = (isFinite load \<and> js_le load cap);
          sf = (if isFinite load \<and> js_lt (Fin 0) load then js_div cap load else PInf)
      in \<lparr>channelOC = ch, clipOC = cl, tribAreaFt2 = trib, loadPerClip = load,
          pass = ok, safety = sf\<rparr>)"

fun inner_loop :: "jsnum \<Rightarrow> jsnum \<Rightarrow> jsnum \<Rightarrow> jsnum list \<Rightarrow> combo list \<Rightarrow> combo list" where
  "inner_loop g cap ch [] out = out"
| "inner_loop g cap ch (cl # rest) out =
     inner_loop g cap ch rest (out @ [make_combo g cap ch cl])"

fun outer_loop :: "jsnum \<Rightarrow> jsnum \<Rightarrow> jsnum list \<Rightarrow> jsnum list \<Rightarrow> combo list \<Rightarrow> combo list" where
  "outer_loop g cap [] cls out = out"
| "outer_loop g cap (ch # rest) cls out =
     outer_loop g cap rest cls (inner_loop g cap ch cls out)"

text \<open>The two candidate arrays \<open>channels\<close> and \<open>clips\<close> of \<open>calcCombos\<close>.\<close>

definition channels :: "params \<Rightarrow> jsnum list" where
  "channels p = array_sort (\<lambda>a b. js_sub a b) (array_from_set (allowedChannelSpacings p))"

definition clips :: "params \<Rightarrow> jsnum list" where
  "clips p =
     (if constrainToStructure p then [structureSpacing p]
      else array_sort (\<lambda>a b. js_sub a b) (array_from_set (allowedClipSpacings p)))"

text \<open>The key of the final sort: \<open>channelOC * clipOC\<close>.\<close>

definition spacing_product :: "combo \<Rightarrow> jsnum" where
  "spacing_product c = js_mul (channelOC c) (clipOC c)"

definition calcCombos :: "params \<Rightarrow> combo list" where
  "calcCombos p =
     array_sort (\<lambda>a b. js_sub (spacing_product b) (spacing_product a))
       (outer_loop (gridPsf p) (clipCap p) (channels p) (clips p) [])"

fun firstPassing :: "combo list \<Rightarrow> combo option" where
  "firstPassing [] = None"
| "firstPassing (c # cs) = (if pass c then Some c else firstPassing cs)"

section \<open>The values derived in the component\<close>

definition CLIP_CAP :: jsnum where
  "CLIP_CAP = Fin 36"

text \<open>\<open>estimatedClipsOnGrid\<close>, from \<open>rec\<close> and \<open>area\<close>.  The literal \<open>1e-6\<close> is
  the double nearest to that decimal.\<close>

definition estimatedClipsOnGrid :: "combo option \<Rightarrow> jsnum \<Rightarrow> jsnum" where
  "estimatedClipsOnGrid rec area =
     (case rec of
        None \<Rightarrow> Fin 0
      | Some r \<Rightarrow>
          if js_le area (Fin 0) then Fin 0
          else Math_ceil (js_div area (Math_max (tribAreaFt2 r) (Fin (round_double (1 / 1000000))))))"

text \<open>\<open>dedicatedCloudClips\<close>, from \<open>mountMode\<close> and the four cloud counts.\<close>

definition dedicatedCloudClips :: "string \<Rightarrow> jsnum \<Rightarrow> jsnum \<Rightarrow> jsnum \<Rightarrow> jsnum \<Rightarrow> jsnum" where
  "dedicatedCloudClips mountMode c4x1 c4x2 c4x3 c4x4 =
     (if mountMode \<noteq> ''dedicated'' then Fin 0
      else js_mul (js_add (js_add (js_add c4x1 c4x2) c4x3) c4x4) (Fin 4))"

definition totalClips :: "jsnum \<Rightarrow> jsnum \<Rightarrow> jsnum" where
  "totalClips estimated dedicated = js_add estimated dedicated"

text \<open>\<open>dedicatedRows\<close>, from \<open>mountMode\<close> alone.\<close>

record dedicated_item =
  name :: string
  load :: jsnum

text \<open>A row adds the fields \<open>pass\<close> and \<open>safety\<close> (here \<open>row_pass\<close> and
  \<open>row_safety\<close>, the names \<open>pass\<close> and \<open>safety\<close> being those of a combo).\<close>

record dedicated_row = dedicated_item +
  row_pass :: bool
  row_safety :: jsnum

definition items :: "dedicated_item list" where
  "items =
     [\<lparr>name = ''4x1 (15 lb)'', load = js_div (Fin 15) (Fin 4)\<rparr>,
      \<lparr>name = ''4x2 (30 lb)'', load = js_div (Fin 30) (Fin 4)\<rparr>,
      \<lparr>name = ''4x3 (45 lb)'', load = js_div (Fin 45) (Fin 4)\<rparr>,
      \<lparr>name = ''4x4 (60 lb)'', load = js_div (Fin 60) (Fin 4)\<rparr>]"

definition dedicatedRows :: "string \<Rightarrow> dedicated_row list" where
  "dedicatedRows mountMode =
     (if mountMode \<noteq> ''dedicated'' then []
      else map (\<lambda>x.
             \<lparr>name = name x, load = load x, row_pass = js_le (load x) CLIP_CAP,
              row_safety = (if js_lt (Fin 0) (load x) then js_div CLIP_CAP (load x) else PInf)\<rparr>)
           items)"

section \<open>Domains and sample inputs\<close>

text \<open>
  The spacing candidates are the elements of \<open>channels\<close> and \<open>clips\<close>; the data
  model takes them to be positive numbers.
\<close>

definition positive_candidates :: "params \<Rightarrow> bool" where
  "positive_candidates p =
     ((\<forall>a\<in>set (channels p). js_lt (Fin 0) a) \<and> (\<forall>b\<in>set (clips p). js_lt (Fin 0) b))"

text \<open>
  The final sort compares products of a channel spacing and a clip spacing; it needs them
  to be numbers.  A product is NaN only when a candidate is NaN or when a zero meets an
  infinity, so this holds for positive candidates and for finite ones.
\<close>

definition numeric_products :: "params \<Rightarrow> bool" where
  "numeric_products p = (\<forall>a\<in>set (channels p). \<forall>b\<in>set (clips p). js_mul a b \<noteq> NaN)"

text \<open>
  The product the code sorts by is the rounded one, \<open>spacing_product\<close>.  The spacing
  product of the specification is the exact product of two finite spacings, the real
  \<open>exact_product\<close>; the two agree on an input when every product of its candidates
  is a double, as products of whole inches below \<open>2^53\<close> are.
\<close>

fun finite_value :: "jsnum \<Rightarrow> real" where
  "finite_value (Fin x) = x"
| "finite_value PInf = 0"
| "finite_value NInf = 0"
| "finite_value NaN = 0"

definition exact_product :: "combo \<Rightarrow> real" where
  "exact_product c = finite_value (channelOC c) * finite_value (clipOC c)"

definition exact_products :: "params \<Rightarrow> bool" where
  "exact_products p =
     (\<forall>a\<in>set (channels p). \<forall>b\<in>set (clips p).
        isFinite a \<and> isFinite b \<and> js_mul a b = Fin (finite_value a * finite_value b))"

text \<open>Channels 12 and 24 over clips 48 at 6 psf, capacity 36.\<close>

definition example_params :: params where
  "example_params =
     \<lparr>gridPsf = Fin 6, allowedChannelSpacings = [Fin 12, Fin 24],
      allowedClipSpacings = [Fin 48], constrainToStructure = False,
      structureSpacing = Fin 48, clipCap = Fin 36\<rparr>"

text \<open>
  Spacings whose products meet at a rounding tie: \<open>134217729 * 134217727 = 2^54 - 1\<close>
  rounds to \<open>2^54 = 268435456 * 67108864\<close>.  The grid load is \<open>243 * 2^-50\<close>.
\<close>

definition tie_params :: params where
  "tie_params =
     \<lparr>gridPsf = Fin (243 / 2 ^ 50),
      allowedChannelSpacings = [Fin 134217729, Fin 268435456],
      allowedClipSpacings = [Fin 67108864, Fin 134217727], constrainToStructure = False,
      structureSpacing = Fin 48, clipCap = Fin 36\<rparr>"

text \<open>One pair, 24 by 48 (a tributary area of 8), at a grid load still to be set.\<close>

definition single_pair_params :: "jsnum \<Rightarrow> params" where
  "single_pair_params g =
     \<lparr>gridPsf = g, allowedChannelSpacings = [Fin 24], allowedClipSpacings = [Fin 48],
      constrainToStructure = False, structureSpacing = Fin 48, clipCap = Fin 36\<rparr>"

section \<open>Rounding: basic facts\<close>

lemma round_half_even_of_int [simp]: "round_half_even (of_int n) = n"
  by (simp add: round_half_even_def)

lemma round_half_even_bounds: "\<lfloor>q\<rfloor> \<le> round_half_even q \<and> round_half_even q \<le> \<lfloor>q\<rfloor> + 1"
  by (simp add: round_half_even_def Let_def)

lemma round_half_even_mono: "q \<le> q' \<Longrightarrow> round_half_even q \<le> round_half_even q'"
proof -
  assume le: "q \<le> q'"
  then have f: "\<lfloor>q\<rfloor> \<le> \<lfloor>q'\<rfloor>" by (rule floor_mono)
  show ?thesis
  proof (cases "\<lfloor>q\<rfloor> = \<lfloor>q'\<rfloor>")
    case True
    with le show ?thesis
      by (auto simp: round_half_even_def Let_def)
  next
    case False
    with f have "\<lfloor>q\<rfloor> + 1 \<le> \<lfloor>q'\<rfloor>" by simp
    with round_half_even_bounds [of q] round_half_even_bounds [of q'] show ?thesis
      by linarith
  qed
qed

lemma round_half_even_le: "q \<le> of_int n \<Longrightarrow> round_half_even q \<le> n"
  using round_half_even_mono [of q "of_int n"] by simp

lemma round_half_even_ge: "of_int n \<le> q \<Longrightarrow> n \<le> round_half_even q"
  using round_half_even_mono [of "of_int n" q] by simp

lemma round_half_even_below_half:
  assumes "q < of_int n - 1 / 2"
  shows "round_half_even q \<le> n - 1"
proof -
  have "\<lfloor>q\<rfloor> \<le> n - 1" using assms by linarith
  then consider "\<lfloor>q\<rfloor> \<le> n - 2" | "\<lfloor>q\<rfloor> = n - 1" by linarith
  then show ?thesis
  proof cases
    case 1
    with round_half_even_bounds [of q] show ?thesis by linarith
  next
    case 2
    with assms have "q - of_int \<lfloor>q\<rfloor> < 1 / 2" by simp
    with 2 show ?thesis by (simp add: round_half_even_def Let_def)
  qed
qed

lemma ulp_pos [simp]: "0 < ulp x"
  by (simp add: ulp_def)

lemma floor_log2_bounds:
  assumes "0 < x"
  shows "2 powr of_int \<lfloor>log 2 x\<rfloor> \<le> x" and "x < 2 powr of_int (\<lfloor>log 2 x\<rfloor> + 1)"
  using floor_log_eq_powr_iff [of x 2 "\<lfloor>log 2 x\<rfloor>"] assms by simp_all

lemma round_half_even_zero [simp]: "round_half_even 0 = 0"
  using round_half_even_of_int [of 0] by simp

lemma two_powr_53: "(2::real) ^ 53 * 2 powr of_int (e - 52) = 2 powr of_int (e + 1)"
proof -
  have "(2::real) ^ 53 = 2 powr 53" by simp
  then have "(2::real) ^ 53 * 2 powr of_int (e - 52) = 2 powr (53 + of_int (e - 52))"
    by (simp only: powr_add)
  also have "53 + real_of_int (e - 52) = of_int (e + 1)" by simp
  finally show ?thesis .
qed

lemma two_powr_52: "(2::real) ^ 52 * 2 powr of_int (e - 52) = 2 powr of_int e"
proof -
  have "(2::real) ^ 52 = 2 powr 52" by simp
  then have "(2::real) ^ 52 * 2 powr of_int (e - 52) = 2 powr (52 + of_int (e - 52))"
    by (simp only: powr_add)
  also have "52 + real_of_int (e - 52) = of_int e" by simp
  finally show ?thesis .
qed

lemma two_powr_mono:
  assumes "(a::int) \<le> b"
  shows "(2::real) powr of_int a \<le> 2 powr of_int b"
proof -
  from assms have "real_of_int a \<le> real_of_int b" by (simp only: of_int_le_iff)
  then show ?thesis by (rule powr_mono) simp
qed

lemma expo_ge: "- 1022 \<le> expo x"
  by (simp add: expo_def)

lemma expo_cases: "expo x = \<lfloor>log 2 x\<rfloor> \<or> (expo x = - 1022 \<and> \<lfloor>log 2 x\<rfloor> < - 1022)"
  unfolding expo_def by linarith

lemma expo_mono: "0 < x \<Longrightarrow> x \<le> y \<Longrightarrow> expo x \<le> expo y"
proof -
  assume "0 < x" "x \<le> y"
  then have "log 2 x \<le> log 2 y" by simp
  then have "\<lfloor>log 2 x\<rfloor> \<le> \<lfloor>log 2 y\<rfloor>" by (rule floor_mono)
  then show ?thesis unfolding expo_def by linarith
qed

lemma below_expo: "0 < x \<Longrightarrow> x < 2 powr of_int (expo x + 1)"
proof -
  assume x: "0 < x"
  have "\<lfloor>log 2 x\<rfloor> + 1 \<le> expo x + 1" unfolding expo_def by linarith
  then have "(2::real) powr of_int (\<lfloor>log 2 x\<rfloor> + 1) \<le> 2 powr of_int (expo x + 1)"
    by (rule two_powr_mono)
  with floor_log2_bounds(2) [OF x] show ?thesis by linarith
qed

lemma above_expo: "0 < x \<Longrightarrow> - 1022 < expo x \<Longrightarrow> 2 powr of_int (expo x) \<le> x"
proof -
  assume x: "0 < x" and n: "- 1022 < expo x"
  with expo_cases [of x] have "expo x = \<lfloor>log 2 x\<rfloor>" by linarith
  with floor_log2_bounds(1) [OF x] show ?thesis by (simp only:)
qed

lemma scaled_below: "0 < x \<Longrightarrow> x / ulp x < 2 ^ 53"
proof -
  assume x: "0 < x"
  have "x < 2 ^ 53 * ulp x"
    using below_expo [OF x] by (simp only: ulp_def two_powr_53)
  then show ?thesis
    by (simp only: pos_divide_less_eq ulp_pos)
qed

lemma scaled_above: "0 < x \<Longrightarrow> - 1022 < expo x \<Longrightarrow> 2 ^ 52 \<le> x / ulp x"
proof -
  assume x: "0 < x" and n: "- 1022 < expo x"
  have "2 ^ 52 * ulp x \<le> x"
    using above_expo [OF x n] by (simp only: ulp_def two_powr_52)
  then show ?thesis
    by (simp only: pos_le_divide_eq ulp_pos)
qed

lemma round_mag_upper: "0 < x \<Longrightarrow> round_mag x \<le> 2 powr of_int (expo x + 1)"
proof -
  assume x: "0 < x"
  have "x / ulp x \<le> of_int (2 ^ 53)"
    using scaled_below [OF x] by simp
  then have "round_half_even (x / ulp x) \<le> 2 ^ 53"
    by (rule round_half_even_le)
  then have "real_of_int (round_half_even (x / ulp x)) \<le> of_int (2 ^ 53)"
    by (simp only: of_int_le_iff)
  then have "real_of_int (round_half_even (x / ulp x)) \<le> 2 ^ 53" by simp
  then have "round_mag x \<le> 2 ^ 53 * ulp x"
    unfolding round_mag_def by (intro mult_right_mono) (simp_all add: less_imp_le)
  then show ?thesis
    by (simp only: ulp_def two_powr_53)
qed

lemma round_mag_lower:
  "0 < x \<Longrightarrow> - 1022 < expo x \<Longrightarrow> 2 powr of_int (expo x) \<le> round_mag x"
proof -
  assume x: "0 < x" and n: "- 1022 < expo x"
  have "of_int (2 ^ 52) \<le> x / ulp x"
    using scaled_above [OF x n] by simp
  then have "2 ^ 52 \<le> round_half_even (x / ulp x)"
    by (rule round_half_even_ge)
  then have "of_int (2 ^ 52) \<le> real_of_int (round_half_even (x / ulp x))"
    by (simp only: of_int_le_iff)
  then have "2 ^ 52 \<le> real_of_int (round_half_even (x / ulp x))" by simp
  then have "2 ^ 52 * ulp x \<le> round_mag x"
    unfolding round_mag_def by (intro mult_right_mono) (simp_all add: less_imp_le)
  then show ?thesis
    by (simp only: ulp_def two_powr_52)
qed

lemma round_mag_nonneg: "0 \<le> x \<Longrightarrow> 0 \<le> round_mag x"
proof -
  assume "0 \<le> x"
  then have "of_int 0 \<le> x / ulp x" by (simp add: less_imp_le)
  then have "0 \<le> round_half_even (x / ulp x)" by (rule round_half_even_ge)
  then show ?thesis
    unfolding round_mag_def by (intro mult_nonneg_nonneg) (simp_all add: less_imp_le)
qed

lemma round_mag_mono:
  assumes "0 < x" and "x \<le> y"
  shows "round_mag x \<le> round_mag y"
proof (cases "expo x = expo y")
  case True
  then have u: "ulp x = ulp y" by (simp add: ulp_def)
  have "x / ulp y \<le> y / ulp y"
    using assms(2) by (intro divide_right_mono) (simp_all add: less_imp_le)
  then have "round_half_even (x / ulp y) \<le> round_half_even (y / ulp y)"
    by (rule round_half_even_mono)
  then have "real_of_int (round_half_even (x / ulp y)) \<le> real_of_int (round_half_even (y / ulp y))"
    by (simp only: of_int_le_iff)
  then show ?thesis
    unfolding round_mag_def u by (intro mult_right_mono) (simp_all add: less_imp_le)
next
  case False
  with expo_mono [OF assms] have lt: "expo x + 1 \<le> expo y" by simp
  with expo_ge [of x] have "- 1022 < expo y" by linarith
  moreover have "0 < y" using assms by linarith
  ultimately have "2 powr of_int (expo y) \<le> round_mag y"
    by (intro round_mag_lower)
  moreover have "(2::real) powr of_int (expo x + 1) \<le> 2 powr of_int (expo y)"
    using lt by (rule two_powr_mono)
  ultimately show ?thesis
    using round_mag_upper [OF assms(1)] by linarith
qed

lemma round_mag_zero [simp]: "round_mag 0 = 0"
  by (simp add: round_mag_def)

lemma round_double_zero [simp]: "round_double 0 = 0"
  by (simp add: round_double_def)

lemma round_double_nonneg: "0 \<le> r \<Longrightarrow> 0 \<le> round_double r"
  using round_mag_nonneg [of r] by (simp add: round_double_def sgn_if)

lemma round_double_nonpos: "r \<le> 0 \<Longrightarrow> round_double r \<le> 0"
  using round_mag_nonneg [of "- r"] by (simp add: round_double_def sgn_if)

lemma round_double_minus [simp]: "round_double (- r) = - round_double r"
  by (simp add: round_double_def sgn_minus)

lemma round_double_mono:
  assumes "r \<le> s"
  shows "round_double r \<le> round_double s"
proof -
  consider "0 < r" | "r \<le> 0" "0 \<le> s" | "s < 0" by linarith
  then show ?thesis
  proof cases
    case 1
    with assms round_mag_mono [of r s] show ?thesis
      by (simp add: round_double_def)
  next
    case 2
    with round_double_nonpos [of r] round_double_nonneg [of s] show ?thesis by linarith
  next
    case 3
    with assms round_mag_mono [of "- s" "- r"] show ?thesis
      by (simp add: round_double_def)
  qed
qed

lemma two_powr_less_imp:
  assumes "(2::real) powr of_int a < 2 powr of_int b"
  shows "a < b"
proof (rule ccontr)
  assume "\<not> a < b"
  then have "b \<le> a" by simp
  then have "(2::real) powr of_int b \<le> 2 powr of_int a" by (rule two_powr_mono)
  with assms show False by simp
qed

lemma expo_eqI:
  assumes "2 powr of_int e \<le> x" and "x < 2 powr of_int (e + 1)" and "- 1022 \<le> e"
  shows "expo x = e"
proof -
  have "(0::real) < 2 powr of_int e" by simp
  with assms(1) have x: "0 < x" by linarith
  have "\<lfloor>log 2 x\<rfloor> = e"
    using floor_log_eq_powr_iff [of x 2 e] x assms(1,2) by simp
  with assms(3) show ?thesis unfolding expo_def by linarith
qed

lemma expo_subnormal:
  assumes "0 < x" and "x < 2 powr of_int (- 1022)"
  shows "expo x = - 1022"
proof -
  have "2 powr of_int \<lfloor>log 2 x\<rfloor> < (2::real) powr of_int (- 1022)"
    using floor_log2_bounds(1) [OF assms(1)] assms(2) by linarith
  then have "\<lfloor>log 2 x\<rfloor> < - 1022" by (rule two_powr_less_imp)
  then show ?thesis unfolding expo_def by linarith
qed

lemma expo_upper:
  assumes "0 < x" and "x < 2 powr of_int b" and "- 1022 < b"
  shows "expo x < b"
proof -
  have "2 powr of_int \<lfloor>log 2 x\<rfloor> < (2::real) powr of_int b"
    using floor_log2_bounds(1) [OF assms(1)] assms(2) by linarith
  then have "\<lfloor>log 2 x\<rfloor> < b" by (rule two_powr_less_imp)
  with assms(3) show ?thesis unfolding expo_def by linarith
qed

lemma two_powr_diff_nat:
  assumes "(d::int) \<le> k"
  shows "(2::real) powr of_int k = 2 ^ nat (k - d) * 2 powr of_int d"
proof -
  have "(2::real) ^ nat (k - d) = 2 powr of_int (k - d)"
    using assms by (simp add: powr_realpow [symmetric])
  then have "(2::real) ^ nat (k - d) * 2 powr of_int d = 2 powr (of_int (k - d) + of_int d)"
    by (simp only: powr_add)
  then show ?thesis by simp
qed

lemma ulp_neq_0 [simp]: "ulp x \<noteq> 0"
  by (metis ulp_pos less_irrefl)

lemma round_mag_exact:
  assumes n: "0 < n" "n < 2 ^ 53" and k: "- 1074 \<le> k"
  shows "round_mag (of_int n * 2 powr of_int k) = of_int n * 2 powr of_int k"
proof -
  define x where "x = real_of_int n * 2 powr of_int k"
  have x: "0 < x" using n(1) by (simp add: x_def)
  have "real_of_int n < of_int (2 ^ 53)" using n(2) by (simp only: of_int_less_iff)
  then have "real_of_int n < 2 ^ 53" by simp
  then have "x < 2 ^ 53 * 2 powr of_int k"
    unfolding x_def by (intro mult_strict_right_mono) simp_all
  also have "(2::real) ^ 53 * 2 powr of_int k = 2 powr of_int (k + 53)"
    using two_powr_53 [of "k + 52"] by (simp add: add.commute)
  finally have "x < 2 powr of_int (k + 53)" .
  moreover have "- 1022 < k + 53" using k by simp
  ultimately have "expo x < k + 53" using x by (intro expo_upper)
  then have d: "expo x - 52 \<le> k" by simp
  define j where "j = nat (k - (expo x - 52))"
  have split: "(2::real) powr of_int k = 2 ^ j * 2 powr of_int (expo x - 52)"
    unfolding j_def using d by (rule two_powr_diff_nat)
  have "x = real_of_int n * 2 powr of_int k" by (rule x_def)
  also have "\<dots> = real_of_int n * (2 ^ j * ulp x)"
    unfolding ulp_def by (rule arg_cong [OF split])
  finally have xs: "x = real_of_int n * (2 ^ j * ulp x)" .
  have "real_of_int n * (2 ^ j * ulp x) / ulp x = of_int (n * 2 ^ j)"
    by simp
  with xs have "x / ulp x = of_int (n * 2 ^ j)"
    by (simp only:)
  then have "round_half_even (x / ulp x) = n * 2 ^ j"
    by (simp only: round_half_even_of_int)
  then have "round_mag x = of_int (n * 2 ^ j) * ulp x"
    by (simp only: round_mag_def)
  also have "\<dots> = real_of_int n * (2 ^ j * ulp x)"
    by simp
  also have "\<dots> = x" by (rule xs [symmetric])
  finally show ?thesis by (simp only: x_def)
qed

lemma round_mag_two_powr:
  assumes "- 1074 \<le> k"
  shows "round_mag (2 powr of_int k) = 2 powr of_int k"
  using round_mag_exact [of 1 k] assms by simp

text \<open>A rounded magnitude is zero or a 53-bit multiple of a power of two.\<close>

lemma round_mag_form:
  assumes "0 < x"
  shows "round_mag x = 0 \<or> round_mag x = 2 powr of_int (expo x + 1)
       \<or> (\<exists>n. 0 < n \<and> n < 2 ^ 53 \<and> round_mag x = of_int n * 2 powr of_int (expo x - 52))"
proof -
  define N where "N = round_half_even (x / ulp x)"
  have "of_int 0 \<le> x / ulp x" using assms by (simp add: less_imp_le)
  then have lo: "0 \<le> N" unfolding N_def by (rule round_half_even_ge)
  have "x / ulp x \<le> of_int (2 ^ 53)" using scaled_below [OF assms] by simp
  then have hi: "N \<le> 2 ^ 53" unfolding N_def by (rule round_half_even_le)
  have m: "round_mag x = of_int N * 2 powr of_int (expo x - 52)"
    by (simp add: round_mag_def N_def ulp_def)
  consider "N = 0" | "N = 2 ^ 53" | "0 < N" "N < 2 ^ 53" using lo hi by linarith
  then show ?thesis
  proof cases
    case 1
    with m show ?thesis by simp
  next
    case 2
    with m have "round_mag x = 2 ^ 53 * 2 powr of_int (expo x - 52)" by simp
    then show ?thesis by (simp only: two_powr_53) simp
  next
    case 3
    with m show ?thesis by blast
  qed
qed

lemma round_mag_idem:
  assumes "0 < x"
  shows "round_mag (round_mag x) = round_mag x"
proof -
  have e: "- 1074 \<le> expo x - 52" "- 1074 \<le> expo x + 1"
    using expo_ge [of x] by simp_all
  from round_mag_form [OF assms] show ?thesis
  proof (elim disjE exE conjE)
    assume "round_mag x = 0"
    then show ?thesis by simp
  next
    assume "round_mag x = 2 powr of_int (expo x + 1)"
    then show ?thesis using round_mag_two_powr [OF e(2)] by simp
  next
    fix n :: int
    assume "0 < n" "n < 2 ^ 53" "round_mag x = of_int n * 2 powr of_int (expo x - 52)"
    then show ?thesis using round_mag_exact [OF _ _ e(1), of n] by simp
  qed
qed

lemma round_double_idem [simp]: "round_double (round_double r) = round_double r"
proof -
  consider "0 < r" | "r = 0" | "r < 0" by linarith
  then show ?thesis
  proof cases
    case 1
    then have "0 \<le> round_mag r" by (simp add: round_mag_nonneg)
    then consider "round_mag r = 0" | "0 < round_mag r" by linarith
    then show ?thesis
      using 1 round_mag_idem [of r] by cases (simp_all add: round_double_def)
  next
    case 2
    then show ?thesis by simp
  next
    case 3
    then have "0 \<le> round_mag (- r)" by (simp add: round_mag_nonneg)
    then consider "round_mag (- r) = 0" | "0 < round_mag (- r)" by linarith
    then show ?thesis
      using 3 round_mag_idem [of "- r"] by cases (simp_all add: round_double_def)
  qed
qed

lemma round_double_exact:
  assumes "\<bar>n\<bar> < 2 ^ 53" and "- 1074 \<le> k"
  shows "round_double (of_int n * 2 powr of_int k) = of_int n * 2 powr of_int k"
proof -
  consider "0 < n" | "n = 0" | "n < 0" by linarith
  then show ?thesis
  proof cases
    case 1
    with assms round_mag_exact [of n k] show ?thesis
      by (simp add: round_double_def abs_mult)
  next
    case 2
    then show ?thesis by simp
  next
    case 3
    then have "0 < real_of_int (- n)" by simp
    then have pos: "0 < real_of_int (- n) * 2 powr of_int k"
      by (intro mult_pos_pos) simp_all
    have "round_double (of_int (- n) * 2 powr of_int k) = of_int (- n) * 2 powr of_int k"
      using 3 assms round_mag_exact [of "- n" k] pos
      by (simp only: round_double_def abs_of_pos sgn_pos)
    moreover have "of_int (- n) * 2 powr of_int k = - (real_of_int n * 2 powr of_int k)"
      by simp
    ultimately have "round_double (- (real_of_int n * 2 powr of_int k))
        = - (real_of_int n * 2 powr of_int k)"
      by (simp only:)
    then show ?thesis by (simp only: round_double_minus minus_minus neg_equal_iff_equal)
  qed
qed

lemma round_double_of_int:
  "\<bar>n\<bar> < 2 ^ 53 \<Longrightarrow> round_double (of_int n) = of_int n"
  using round_double_exact [of n 0] by simp

lemma round_double_numeral [simp]:
  "(numeral w :: real) < 2 ^ 53 \<Longrightarrow> round_double (numeral w) = numeral w"
proof -
  assume "(numeral w :: real) < 2 ^ 53"
  then have "real_of_int (numeral w) < of_int (2 ^ 53)" by simp
  then have "(numeral w :: int) < 2 ^ 53" by (simp only: of_int_less_iff)
  then show ?thesis using round_double_of_int [of "numeral w"] by simp
qed

lemma round_double_one [simp]: "round_double 1 = 1"
  using round_double_of_int [of 1] by simp

lemma is_double_round [simp]: "is_double (round_double r)"
  by (simp add: is_double_def)

lemma is_double_zero [simp]: "is_double 0"
  by (simp add: is_double_def)

lemma round_mag_eval:
  assumes "2 powr of_int e \<le> x" and "x < 2 powr of_int (e + 1)" and "- 1022 \<le> e"
  shows "round_mag x =
    of_int (round_half_even (x / 2 powr of_int (e - 52))) * 2 powr of_int (e - 52)"
  using expo_eqI [OF assms] by (simp add: round_mag_def ulp_def)

lemma round_double_eval:
  assumes "2 powr of_int e \<le> x" and "x < 2 powr of_int (e + 1)" and "- 1022 \<le> e"
  shows "round_double x =
    of_int (round_half_even (x / 2 powr of_int (e - 52))) * 2 powr of_int (e - 52)"
proof -
  have "(0::real) < 2 powr of_int e" by simp
  with assms(1) have "0 < x" by linarith
  then show ?thesis
    using round_mag_eval [OF assms] by (simp add: round_double_def)
qed

lemma round_double_up:
  assumes "2 ^ 52 \<le> x / 2 ^ m" and "x / 2 ^ m < 2 ^ 53"
  shows "round_double x = of_int (round_half_even (x / 2 ^ m)) * 2 ^ m"
proof -
  have p: "(2::real) powr of_int ((int m + 52) - 52) = 2 ^ m"
    by (simp add: powr_realpow)
  have "(2::real) ^ 52 * 2 ^ m \<le> x"
    using assms(1) by (simp only: pos_le_divide_eq zero_less_power zero_less_numeral)
  then have "(2::real) ^ 52 * 2 powr of_int ((int m + 52) - 52) \<le> x"
    by (simp only: p)
  then have lo: "2 powr of_int (int m + 52) \<le> x"
    by (simp only: two_powr_52)
  have "x < (2::real) ^ 53 * 2 ^ m"
    using assms(2) by (simp only: pos_divide_less_eq zero_less_power zero_less_numeral)
  then have "x < (2::real) ^ 53 * 2 powr of_int ((int m + 52) - 52)"
    by (simp only: p)
  then have hi: "x < 2 powr of_int ((int m + 52) + 1)"
    by (simp only: two_powr_53)
  have "round_double x = of_int (round_half_even (x / 2 powr of_int ((int m + 52) - 52)))
      * 2 powr of_int ((int m + 52) - 52)"
    using lo hi by (intro round_double_eval) simp_all
  then show ?thesis by (simp only: p)
qed

lemma round_double_down:
  assumes "2 ^ 52 \<le> x * 2 ^ m" and "x * 2 ^ m < 2 ^ 53" and "m \<le> 1074"
  shows "round_double x = of_int (round_half_even (x * 2 ^ m)) / 2 ^ m"
proof -
  have p: "(2::real) powr of_int ((52 - int m) - 52) = 1 / 2 ^ m"
    by (simp add: powr_minus powr_realpow inverse_eq_divide)
  have "(2::real) ^ 52 * (1 / 2 ^ m) \<le> x"
    using assms(1) by (simp add: pos_divide_le_eq)
  then have "(2::real) ^ 52 * 2 powr of_int ((52 - int m) - 52) \<le> x"
    by (simp only: p)
  then have lo: "2 powr of_int (52 - int m) \<le> x"
    by (simp only: two_powr_52)
  have "x < (2::real) ^ 53 * (1 / 2 ^ m)"
    using assms(2) by (simp add: pos_less_divide_eq)
  then have "x < (2::real) ^ 53 * 2 powr of_int ((52 - int m) - 52)"
    by (simp only: p)
  then have hi: "x < 2 powr of_int ((52 - int m) + 1)"
    by (simp only: two_powr_53)
  have "round_double x = of_int (round_half_even (x / 2 powr of_int ((52 - int m) - 52)))
      * 2 powr of_int ((52 - int m) - 52)"
    using lo hi assms(3) by (intro round_double_eval) simp_all
  then show ?thesis by (simp only: p) simp
qed

lemma on_grid_zero [simp]: "on_grid 0"
  unfolding on_grid_def by (rule exI [of _ 0]) simp

lemma on_grid_multiple:
  assumes "- 1074 \<le> d"
  shows "on_grid (of_int n * 2 powr of_int d)"
proof -
  have "real_of_int n * 2 powr of_int d
      = real_of_int n * (2 ^ nat (d - (- 1074)) * 2 powr of_int (- 1074))"
    by (rule arg_cong [OF two_powr_diff_nat [OF assms]])
  also have "\<dots> = of_int (n * 2 ^ nat (d - (- 1074))) * 2 powr of_int (- 1074)"
    by (simp only: of_int_mult of_int_power of_int_numeral mult.assoc)
  finally show ?thesis unfolding on_grid_def by (rule exI)
qed

lemma on_grid_minus: "on_grid x \<Longrightarrow> on_grid (- x)"
proof -
  assume "on_grid x"
  then obtain j :: int where "x = of_int j * 2 powr of_int (- 1074)"
    unfolding on_grid_def by blast
  then have "- x = of_int (- j) * 2 powr of_int (- 1074)"
    by (simp only: of_int_minus mult_minus_left)
  then show ?thesis unfolding on_grid_def by (rule exI)
qed

lemma round_mag_grid:
  assumes "0 < x"
  shows "on_grid (round_mag x)"
proof -
  have e: "- 1074 \<le> expo x - 52" "- 1074 \<le> expo x + 1"
    using expo_ge [of x] by simp_all
  from round_mag_form [OF assms] show ?thesis
  proof (elim disjE exE conjE)
    assume "round_mag x = 0"
    then show ?thesis by simp
  next
    assume "round_mag x = 2 powr of_int (expo x + 1)"
    then have "round_mag x = of_int 1 * 2 powr of_int (expo x + 1)"
      by (simp only: of_int_1 mult_1)
    then show ?thesis using on_grid_multiple [OF e(2), of 1] by (simp only:)
  next
    fix n :: int
    assume "round_mag x = of_int n * 2 powr of_int (expo x - 52)"
    then show ?thesis using on_grid_multiple [OF e(1), of n] by (simp only:)
  qed
qed

lemma round_double_grid: "on_grid (round_double r)"
proof -
  consider "0 < r" | "r = 0" | "r < 0" by linarith
  then show ?thesis
  proof cases
    case 1
    then show ?thesis using round_mag_grid [of r] by (simp add: round_double_def)
  next
    case 2
    then show ?thesis by simp
  next
    case 3
    then have "on_grid (- round_mag (- r))"
      using round_mag_grid [of "- r"] by (intro on_grid_minus) simp
    with 3 show ?thesis by (simp add: round_double_def)
  qed
qed

lemma is_double_grid: "is_double x \<Longrightarrow> on_grid x"
  using round_double_grid [of x] by (simp add: is_double_def)

lemma least_double: "round_double (2 powr of_int (- 1074)) = 2 powr of_int (- 1074)"
proof -
  have "round_double (of_int 1 * 2 powr of_int (- 1074)) = of_int 1 * 2 powr of_int (- 1074)"
    by (rule round_double_exact) simp_all
  then show ?thesis by (simp only: of_int_1 mult_1)
qed

lemma double_gap:
  assumes "is_double a" and "is_double b" and "a < b"
  shows "2 powr of_int (- 1074) \<le> b - a"
proof -
  define g :: real where "g = 2 powr of_int (- 1074)"
  have g: "0 < g" by (simp add: g_def)
  from is_double_grid [OF assms(1)] obtain i :: int where a: "a = of_int i * g"
    unfolding on_grid_def g_def by blast
  from is_double_grid [OF assms(2)] obtain j :: int where b: "b = of_int j * g"
    unfolding on_grid_def g_def by blast
  from assms(3) have "real_of_int i * g < real_of_int j * g" by (simp only: a b)
  with g have "real_of_int i < real_of_int j" by (simp only: mult_less_cancel_right_pos)
  then have "i + 1 \<le> j" by simp
  then have "real_of_int (i + 1) \<le> real_of_int j" by (simp only: of_int_le_iff)
  then have "real_of_int (i + 1) * g \<le> real_of_int j * g"
    using g by (intro mult_right_mono) simp_all
  then have "g \<le> b - a" by (simp add: a b algebra_simps)
  then show ?thesis by (simp only: g_def)
qed

lemma round_double_diff_pos:
  assumes "is_double a" and "is_double b"
  shows "(0 < round_double (b - a)) = (a < b)"
proof (cases "a < b")
  case True
  from double_gap [OF assms True]
  have "round_double (2 powr of_int (- 1074)) \<le> round_double (b - a)"
    by (rule round_double_mono)
  then have "2 powr of_int (- 1074) \<le> round_double (b - a)"
    by (simp only: least_double)
  moreover have "(0::real) < 2 powr of_int (- 1074)" by simp
  ultimately have "0 < round_double (b - a)" by linarith
  with True show ?thesis by simp
next
  case False
  then have "round_double (b - a) \<le> 0" by (intro round_double_nonpos) simp
  with False show ?thesis by simp
qed

lemma round_half_even_numeral [simp]: "round_half_even (numeral w) = numeral w"
  using round_half_even_of_int [of "numeral w"] by simp

lemma round_double_half: "round_double (1 / 2) = 1 / 2"
proof -
  have "round_double (1 / 2) = of_int (round_half_even (1 / 2 * 2 ^ 53)) / 2 ^ 53"
    by (rule round_double_down) simp_all
  then show ?thesis by simp
qed

lemma below_one_rounds_below_one:
  assumes "0 < q" and "q < 1 - 1 / 2 ^ 54"
  shows "round_double q < 1"
proof (cases "q < 1 / 2")
  case True
  then have "round_double q \<le> round_double (1 / 2)"
    by (intro round_double_mono) simp
  then show ?thesis by (simp add: round_double_half)
next
  case False
  then have lo: "2 ^ 52 \<le> q * 2 ^ 53" by simp
  have hi: "q * 2 ^ 53 < of_int (2 ^ 53) - 1 / 2" using assms(2) by simp
  then have "q * 2 ^ 53 < 2 ^ 53" by simp
  with lo have "round_double q = of_int (round_half_even (q * 2 ^ 53)) / 2 ^ 53"
    by (intro round_double_down) simp_all
  moreover have "round_half_even (q * 2 ^ 53) \<le> 2 ^ 53 - 1"
    using hi by (rule round_half_even_below_half)
  then have "real_of_int (round_half_even (q * 2 ^ 53)) \<le> of_int (2 ^ 53 - 1)"
    by (simp only: of_int_le_iff)
  then have "real_of_int (round_half_even (q * 2 ^ 53)) < 2 ^ 53" by simp
  ultimately show ?thesis by (simp add: pos_divide_less_eq)
qed

lemma double_multiple_of_ulp:
  assumes "is_double x" and "0 < x"
  shows "\<exists>n::int. x = of_int n * 2 powr of_int (expo x - 52)"
proof -
  from assms have "round_mag x = x"
    by (simp add: is_double_def round_double_def)
  then have "x = of_int (round_half_even (x / ulp x)) * 2 powr of_int (expo x - 52)"
    by (simp add: round_mag_def ulp_def)
  then show ?thesis by (rule exI)
qed

lemma two_powr_double: "(2::real) powr of_int (e + 1) = 2 * 2 powr of_int e"
proof -
  have "(2::real) powr of_int (e + 1) = 2 powr (of_int e + 1)" by simp
  also have "\<dots> = 2 powr of_int e * 2 powr 1" by (simp only: powr_add)
  finally show ?thesis by simp
qed

lemma double_gap_relative:
  assumes k: "is_double k" "0 < k" and x: "is_double x" and lt: "k < x"
  shows "2 powr of_int (expo x - 53) \<le> x - k"
proof -
  have xpos: "0 < x" using k(2) lt by linarith
  have mono: "expo k \<le> expo x" using k(2) lt by (intro expo_mono) simp_all
  show ?thesis
  proof (cases "expo k + 1 < expo x")
    case True
    then have "expo k + 1 \<le> expo x - 1" by simp
    then have "(2::real) powr of_int (expo k + 1) \<le> 2 powr of_int (expo x - 1)"
      by (rule two_powr_mono)
    with below_expo [OF k(2)] have k_lt: "k < 2 powr of_int (expo x - 1)" by linarith
    have "- 1022 < expo x" using True expo_ge [of k] by linarith
    then have "2 powr of_int (expo x) \<le> x" using xpos by (intro above_expo)
    moreover have "(2::real) powr of_int (expo x) = 2 * 2 powr of_int (expo x - 1)"
      using two_powr_double [of "expo x - 1"] by simp
    ultimately have "2 powr of_int (expo x - 1) < x - k" using k_lt by linarith
    moreover have "(2::real) powr of_int (expo x - 53) \<le> 2 powr of_int (expo x - 1)"
      by (rule two_powr_mono) simp
    ultimately show ?thesis by linarith
  next
    case False
    then have near: "expo x - 53 \<le> expo k - 52" by simp
    define u :: real where "u = 2 powr of_int (expo k - 52)"
    have u: "0 < u" by (simp add: u_def)
    from double_multiple_of_ulp [OF k] obtain m :: int where km: "k = of_int m * u"
      unfolding u_def by blast
    from double_multiple_of_ulp [OF x xpos] obtain n :: int where
      "x = of_int n * 2 powr of_int (expo x - 52)" by blast
    moreover have "(2::real) powr of_int (expo x - 52)
        = 2 ^ nat ((expo x - 52) - (expo k - 52)) * u"
      unfolding u_def using mono by (intro two_powr_diff_nat) simp
    ultimately have "x = of_int n * (2 ^ nat ((expo x - 52) - (expo k - 52)) * u)"
      by (simp only:)
    then have xn: "x = of_int (n * 2 ^ nat ((expo x - 52) - (expo k - 52))) * u"
      by (simp only: of_int_mult of_int_power of_int_numeral mult.assoc)
    define c where "c = n * 2 ^ nat ((expo x - 52) - (expo k - 52))"
    from lt have "real_of_int m * u < real_of_int c * u"
      using km xn by (simp only: c_def)
    with u have "real_of_int m < real_of_int c" by (simp only: mult_less_cancel_right_pos)
    then have "m + 1 \<le> c" by simp
    then have "real_of_int (m + 1) \<le> real_of_int c" by (simp only: of_int_le_iff)
    then have "real_of_int (m + 1) * u \<le> real_of_int c * u"
      using u by (intro mult_right_mono) simp_all
    then have "u \<le> x - k"
      using km xn by (simp add: c_def algebra_simps)
    moreover have "(2::real) powr of_int (expo x - 53) \<le> u"
      unfolding u_def using near by (rule two_powr_mono)
    ultimately show ?thesis by linarith
  qed
qed

lemma two_powr_54: "(2::real) ^ 54 * 2 powr of_int (e - 53) = 2 powr of_int (e + 1)"
proof -
  have "(2::real) ^ 54 = 2 powr 54" by simp
  then have "(2::real) ^ 54 * 2 powr of_int (e - 53) = 2 powr (54 + of_int (e - 53))"
    by (simp only: powr_add)
  also have "54 + real_of_int (e - 53) = of_int (e + 1)" by simp
  finally show ?thesis .
qed

lemma double_ratio_below_one:
  assumes "is_double k" and "is_double x" and "0 < k" and "k < x"
  shows "round_double (k / x) < 1"
proof -
  have xpos: "0 < x" using assms(3,4) by linarith
  define g :: real where "g = 2 powr of_int (expo x - 53)"
  have gap: "g \<le> x - k"
    unfolding g_def using assms(1,3,2,4) by (rule double_gap_relative)
  have "x < 2 powr of_int (expo x + 1)" using xpos by (rule below_expo)
  then have "x < 2 ^ 54 * g" by (simp only: g_def two_powr_54)
  then have "x / 2 ^ 54 < g" by (simp add: pos_divide_less_eq mult.commute)
  with gap have "k < x - x / 2 ^ 54" by linarith
  then have "k < x * (1 - 1 / 2 ^ 54)" by (simp add: algebra_simps)
  then have "k / x < 1 - 1 / 2 ^ 54"
    using xpos by (simp add: pos_divide_less_eq mult.commute)
  moreover have "0 < k / x" using assms(3) xpos by simp
  ultimately show ?thesis by (intro below_one_rounds_below_one)
qed

section \<open>Numbers: basic facts\<close>

lemma overflow_bound_gt: "2 ^ 1023 < overflow_bound"
  unfolding overflow_bound_def by simp

lemma overflow_bound_pos: "0 < overflow_bound"
proof -
  have "(0::real) < 2 ^ 1023" by simp
  then show ?thesis using overflow_bound_gt by (rule less_trans)
qed

lemma fin_result_not_NaN [simp]: "fin_result r \<noteq> NaN"
  by (simp add: fin_result_def)

lemma js_double_fin_result [simp]: "js_double (fin_result r)"
  by (simp add: fin_result_def)

lemma fin_result_exact:
  "is_double r \<Longrightarrow> \<bar>r\<bar> < overflow_bound \<Longrightarrow> fin_result r = Fin r"
  by (auto simp: fin_result_def is_double_def)

lemma fin_result_small: "is_double r \<Longrightarrow> \<bar>r\<bar> \<le> 2 ^ 53 \<Longrightarrow> fin_result r = Fin r"
proof -
  have "(2::real) ^ 53 < 2 ^ 1023" by simp
  then have "(2::real) ^ 53 < overflow_bound" using overflow_bound_gt by (rule less_trans)
  then show "is_double r \<Longrightarrow> \<bar>r\<bar> \<le> 2 ^ 53 \<Longrightarrow> fin_result r = Fin r"
    by (intro fin_result_exact) simp_all
qed

lemma is_double_numeral [simp]: "(numeral w :: real) < 2 ^ 53 \<Longrightarrow> is_double (numeral w)"
  by (simp add: is_double_def)

lemma is_double_one [simp]: "is_double 1"
  by (simp add: is_double_def)

lemma is_double_minus [simp]: "is_double (- x) = is_double x"
  by (simp add: is_double_def)

lemma is_double_dyadic:
  assumes "\<bar>n\<bar> < 2 ^ 53" and "m \<le> 1074"
  shows "is_double (of_int n / 2 ^ m)"
proof -
  have p: "(2::real) powr of_int (- int m) = 1 / 2 ^ m"
    by (simp add: powr_minus powr_realpow inverse_eq_divide)
  have "round_double (of_int n * 2 powr of_int (- int m)) = of_int n * 2 powr of_int (- int m)"
    using assms by (intro round_double_exact) simp_all
  then show ?thesis unfolding is_double_def by (simp only: p) simp
qed

lemma is_double_numeral_dyadic:
  assumes "(numeral w :: real) < 2 ^ 53" and "m \<le> 1074"
  shows "is_double (numeral w / 2 ^ m)"
proof -
  from assms(1) have "real_of_int (numeral w) < of_int (2 ^ 53)" by simp
  then have "(numeral w :: int) < 2 ^ 53" by (simp only: of_int_less_iff)
  then have "is_double (of_int (numeral w) / 2 ^ m)"
    using assms(2) by (intro is_double_dyadic) simp_all
  then show ?thesis by simp
qed

lemma fin_result_numeral [simp]:
  "(numeral w :: real) < 2 ^ 53 \<Longrightarrow> fin_result (numeral w) = Fin (numeral w)"
  by (rule fin_result_small) simp_all

lemma fin_result_neg_numeral [simp]:
  "(numeral w :: real) < 2 ^ 53 \<Longrightarrow> fin_result (- numeral w) = Fin (- numeral w)"
  by (rule fin_result_small) simp_all

lemma fin_result_zero [simp]: "fin_result 0 = Fin 0"
  by (rule fin_result_small) simp_all

lemma fin_result_one [simp]: "fin_result 1 = Fin 1"
  by (rule fin_result_small) simp_all

lemma abs_fraction_le: "(0::real) \<le> x \<Longrightarrow> x < b \<Longrightarrow> 1 \<le> d \<Longrightarrow> \<bar>x / d\<bar> \<le> b"
proof -
  assume x: "0 \<le> x" "x < b" and d: "1 \<le> d"
  then have "x / d \<le> x / 1" by (intro divide_left_mono) simp_all
  moreover have "0 \<le> x / d" using x d by simp
  ultimately show ?thesis using x by simp
qed

lemma fin_result_half [simp]:
  "(numeral w :: real) < 2 ^ 53 \<Longrightarrow> fin_result (numeral w / 2) = Fin (numeral w / 2)"
proof -
  assume w: "(numeral w :: real) < 2 ^ 53"
  have "is_double (numeral w / 2 ^ 1)"
    by (rule is_double_numeral_dyadic [OF w]) simp
  then have d: "is_double (numeral w / 2)" by simp
  have a: "\<bar>numeral w / 2\<bar> \<le> (2::real) ^ 53"
    by (rule abs_fraction_le [OF _ w]) simp_all
  show ?thesis by (rule fin_result_small [OF d a])
qed

lemma fin_result_quarter [simp]:
  "(numeral w :: real) < 2 ^ 53 \<Longrightarrow> fin_result (numeral w / 4) = Fin (numeral w / 4)"
proof -
  assume w: "(numeral w :: real) < 2 ^ 53"
  have "is_double (numeral w / 2 ^ 2)"
    by (rule is_double_numeral_dyadic [OF w]) simp
  then have d: "is_double (numeral w / 4)" by simp
  have a: "\<bar>numeral w / 4\<bar> \<le> (2::real) ^ 53"
    by (rule abs_fraction_le [OF _ w]) simp_all
  show ?thesis by (rule fin_result_small [OF d a])
qed

lemma fin_result_half_one [simp]: "fin_result (1 / 2) = Fin (1 / 2)"
  by (rule fin_result_small) (simp_all add: is_double_def round_double_half)

text \<open>Evaluating a rounding: scale the value into \<open>[2^52, 2^53)\<close> and round there.\<close>

lemma fin_result_up:
  assumes "2 ^ 52 \<le> x / 2 ^ m" and "x / 2 ^ m < 2 ^ 53" and "m \<le> 900"
  shows "fin_result x = Fin (of_int (round_half_even (x / 2 ^ m)) * 2 ^ m)"
proof -
  have "x < 2 ^ 53 * 2 ^ m"
    using assms(2) by (simp only: pos_divide_less_eq zero_less_power zero_less_numeral)
  also have "(2::real) ^ 53 * 2 ^ m = 2 ^ (53 + m)" by (simp only: power_add)
  also have "(2::real) ^ (53 + m) \<le> 2 ^ 1023"
    using assms(3) by (intro power_increasing) simp_all
  finally have hi: "x < overflow_bound" using overflow_bound_gt by linarith
  have "(0::real) < 2 ^ 52" by simp
  then have "0 < x / 2 ^ m" using assms(1) by (rule less_le_trans)
  then have "0 < x" by (simp add: zero_less_divide_iff)
  with hi overflow_bound_pos have "fin_result x = Fin (round_double x)"
    by (simp add: fin_result_def)
  then show ?thesis using round_double_up [OF assms(1,2)] by simp
qed

lemma fin_result_down:
  assumes "2 ^ 52 \<le> x * 2 ^ m" and "x * 2 ^ m < 2 ^ 53" and "m \<le> 1074"
  shows "fin_result x = Fin (of_int (round_half_even (x * 2 ^ m)) / 2 ^ m)"
proof -
  have "(1::real) \<le> 2 ^ m" by simp
  moreover have "(0::real) < 2 ^ 52" by simp
  then have "0 < x * 2 ^ m" using assms(1) by (rule less_le_trans)
  then have x: "0 < x" by (simp add: zero_less_mult_iff)
  ultimately have "x * 1 \<le> x * 2 ^ m" by (intro mult_left_mono) simp_all
  with assms(2) have "x < 2 ^ 53" by simp
  moreover have "(2::real) ^ 53 < 2 ^ 1023" by simp
  ultimately have "x < overflow_bound" using overflow_bound_gt by linarith
  with x overflow_bound_pos have "fin_result x = Fin (round_double x)"
    by (simp add: fin_result_def)
  then show ?thesis using round_double_down [OF assms] by simp
qed

lemma js_le_fin_result_mono: "r \<le> s \<Longrightarrow> js_le (fin_result r) (fin_result s)"
  using overflow_bound_pos round_double_mono [of r s] by (auto simp: fin_result_def)

lemma fin_result_nonneg: "0 \<le> r \<Longrightarrow> js_le (Fin 0) (fin_result r)"
  using js_le_fin_result_mono [of 0 r] by simp

lemma fin_result_pos_imp: "js_lt (Fin 0) (fin_result r) \<Longrightarrow> 0 < r"
proof (rule ccontr)
  assume pos: "js_lt (Fin 0) (fin_result r)" and "\<not> 0 < r"
  then have "r \<le> 0" by simp
  then have "js_le (fin_result r) (fin_result 0)" by (rule js_le_fin_result_mono)
  with pos show False by (cases "fin_result r") auto
qed

lemma js_le_refl: "a \<noteq> NaN \<Longrightarrow> js_le a a"
  by (cases a) auto

lemma js_le_trans: "js_le a b \<Longrightarrow> js_le b c \<Longrightarrow> js_le a c"
  by (cases a; cases b; cases c) auto

lemma js_le_iff_not_lt: "a \<noteq> NaN \<Longrightarrow> b \<noteq> NaN \<Longrightarrow> js_le a b = (\<not> js_lt b a)"
  by (cases a; cases b) auto

lemma js_le_not_lt: "js_le a b \<Longrightarrow> \<not> js_lt b a"
  by (cases a; cases b) auto

lemma js_le_PInf [simp]: "js_le a PInf = (a \<noteq> NaN)"
  by (cases a) auto

lemma js_double_mul [simp]: "js_double (js_mul a b)"
  by (cases a; cases b) auto

lemma js_double_div [simp]: "js_double (js_div a b)"
  by (cases a; cases b) auto

lemma js_double_add [simp]: "js_double (js_add a b)"
  by (cases a; cases b) auto

lemma js_double_sub [simp]: "js_double (js_sub a b)"
  by (simp add: js_sub_def)

lemma fin_result_diff_pos:
  assumes "is_double x" and "is_double y"
  shows "js_lt (Fin 0) (fin_result (y - x)) = (x < y)"
  using overflow_bound_pos round_double_diff_pos [OF assms]
  by (auto simp: fin_result_def)

lemma js_sub_positive:
  "js_double a \<Longrightarrow> js_double b \<Longrightarrow> a \<noteq> NaN \<Longrightarrow> b \<noteq> NaN \<Longrightarrow>
   js_lt (Fin 0) (js_sub b a) = js_lt a b"
  using fin_result_diff_pos
  by (cases a; cases b) (auto simp: js_sub_def)

lemma js_mul_not_NaN: "js_lt (Fin 0) a \<Longrightarrow> js_lt (Fin 0) b \<Longrightarrow> js_mul a b \<noteq> NaN"
  by (cases a; cases b) auto

lemma js_mul_finite_not_NaN: "isFinite a \<Longrightarrow> isFinite b \<Longrightarrow> js_mul a b \<noteq> NaN"
  by (cases a; cases b) auto

lemma js_mul_nonneg: "js_lt (Fin 0) a \<Longrightarrow> js_lt (Fin 0) b \<Longrightarrow> js_le (Fin 0) (js_mul a b)"
  by (cases a; cases b) (auto simp: fin_result_nonneg)

lemma js_div_144_nonneg: "js_le (Fin 0) a \<Longrightarrow> js_le (Fin 0) (js_div a (Fin 144))"
  by (cases a) (auto simp: fin_result_nonneg)

lemma trib_nonneg:
  "js_lt (Fin 0) ch \<Longrightarrow> js_lt (Fin 0) cl \<Longrightarrow> js_le (Fin 0) (js_div (js_mul ch cl) (Fin 144))"
  by (simp add: js_mul_nonneg js_div_144_nonneg)

section \<open>Arrays: the sort is a stable rearrangement\<close>

lemma set_array_insert [simp]: "set (array_insert cmp x ys) = insert x (set ys)"
  by (induction ys) auto

lemma set_array_sort [simp]: "set (array_sort cmp xs) = set xs"
  by (induction xs) auto

lemma length_array_insert [simp]: "length (array_insert cmp x ys) = Suc (length ys)"
  by (induction ys) auto

lemma length_array_sort [simp]: "length (array_sort cmp xs) = length xs"
  by (induction xs) auto

lemma distinct_array_insert [simp]:
  "distinct (array_insert cmp x ys) = (x \<notin> set ys \<and> distinct ys)"
  by (induction ys) auto

lemma distinct_array_sort [simp]: "distinct (array_sort cmp xs) = distinct xs"
  by (induction xs) auto

lemma set_set_add_all: "set (set_add_all xs seen) = set seen \<union> set xs"
  by (induction xs arbitrary: seen) auto

lemma distinct_set_add_all: "distinct seen \<Longrightarrow> distinct (set_add_all xs seen)"
  by (induction xs arbitrary: seen) auto

lemma set_array_from_set [simp]: "set (array_from_set xs) = set xs"
  by (simp add: array_from_set_def set_set_add_all)

lemma distinct_array_from_set [simp]: "distinct (array_from_set xs)"
  by (simp add: array_from_set_def distinct_set_add_all)

text \<open>Sorting commutes with a map under which the comparator is unchanged.\<close>

lemma array_insert_map:
  "(\<And>a b. cmp (f a) (f b) = cmp' a b) \<Longrightarrow>
   array_insert cmp (f x) (map f ys) = map f (array_insert cmp' x ys)"
  by (induction ys) auto

lemma array_sort_map:
  "(\<And>a b. cmp (f a) (f b) = cmp' a b) \<Longrightarrow>
   array_sort cmp (map f xs) = map f (array_sort cmp' xs)"
  by (induction xs) (auto simp: array_insert_map)

text \<open>With the comparator \<open>key b - key a\<close> and keys that are numbers other than NaN,
  the result is descending.\<close>

lemma sorted_array_insert:
  assumes "\<forall>z\<in>set (x # ys). key z \<noteq> NaN \<and> js_double (key z)"
    and "sorted_wrt (\<lambda>a b. js_le (key b) (key a)) ys"
  shows "sorted_wrt (\<lambda>a b. js_le (key b) (key a))
           (array_insert (\<lambda>a b. js_sub (key b) (key a)) x ys)"
  using assms
proof (induction ys)
  case Nil
  then show ?case by simp
next
  case (Cons y ys)
  show ?case
  proof (cases "js_lt (key x) (key y)")
    case True
    then have "js_le (key x) (key y)"
      by (cases "key x"; cases "key y") auto
    with Cons True show ?thesis
      by (auto simp: js_sub_positive)
  next
    case False
    with Cons.prems have xy: "js_le (key y) (key x)"
      by (simp add: js_le_iff_not_lt)
    have "\<forall>z\<in>set ys. js_le (key z) (key x)"
      using Cons.prems xy by (auto intro: js_le_trans)
    with Cons.prems False xy show ?thesis
      by (auto simp: js_sub_positive)
  qed
qed

lemma sorted_array_sort:
  "\<forall>z\<in>set xs. key z \<noteq> NaN \<and> js_double (key z) \<Longrightarrow>
   sorted_wrt (\<lambda>a b. js_le (key b) (key a)) (array_sort (\<lambda>a b. js_sub (key b) (key a)) xs)"
  by (induction xs) (auto intro!: sorted_array_insert)

section \<open>The enumeration\<close>

lemma make_combo_simps [simp]:
  "channelOC (make_combo g cap ch cl) = ch"
  "clipOC (make_combo g cap ch cl) = cl"
  "tribAreaFt2 (make_combo g cap ch cl) = js_div (js_mul ch cl) (Fin 144)"
  "loadPerClip (make_combo g cap ch cl) = js_mul (js_div (js_mul ch cl) (Fin 144)) g"
  by (simp_all add: make_combo_def Let_def)

lemma pass_make_combo:
  "pass (make_combo g cap ch cl) =
     (isFinite (loadPerClip (make_combo g cap ch cl)) \<and>
      js_le (loadPerClip (make_combo g cap ch cl)) cap)"
  by (simp add: make_combo_def Let_def)

lemma safety_make_combo:
  "safety (make_combo g cap ch cl) =
     (if isFinite (loadPerClip (make_combo g cap ch cl)) \<and>
         js_lt (Fin 0) (loadPerClip (make_combo g cap ch cl))
      then js_div cap (loadPerClip (make_combo g cap ch cl)) else PInf)"
  by (simp add: make_combo_def Let_def)

lemma spacing_product_make_combo [simp]:
  "spacing_product (make_combo g cap ch cl) = js_mul ch cl"
  by (simp add: spacing_product_def)

lemma inner_loop_eq: "inner_loop g cap ch cls out = out @ map (make_combo g cap ch) cls"
  by (induction cls arbitrary: out) auto

lemma outer_loop_eq:
  "outer_loop g cap chs cls out =
     out @ concat (map (\<lambda>ch. map (make_combo g cap ch) cls) chs)"
  by (induction chs arbitrary: out) (auto simp: inner_loop_eq)

lemma outer_loop_product:
  "outer_loop g cap chs cls [] =
     map (\<lambda>(ch, cl). make_combo g cap ch cl) (List.product chs cls)"
  by (induction chs) (auto simp: outer_loop_eq)

lemma set_calcCombos:
  "set (calcCombos p) =
     (\<lambda>(ch, cl). make_combo (gridPsf p) (clipCap p) ch cl) ` (set (channels p) \<times> set (clips p))"
  by (simp add: calcCombos_def outer_loop_product)

lemma length_calcCombos: "length (calcCombos p) = length (channels p) * length (clips p)"
  by (simp add: calcCombos_def outer_loop_product)

lemma in_calcCombosE:
  assumes "c \<in> set (calcCombos p)"
  obtains ch cl where "ch \<in> set (channels p)" "cl \<in> set (clips p)"
    "c = make_combo (gridPsf p) (clipCap p) ch cl"
  using assms by (auto simp: set_calcCombos)

text \<open>The order of the result depends on the spacings alone, not on the load.\<close>

lemma calcCombos_eq_map:
  "calcCombos p =
     map (\<lambda>(ch, cl). make_combo (gridPsf p) (clipCap p) ch cl)
       (array_sort (\<lambda>a b. js_sub (js_mul (fst b) (snd b)) (js_mul (fst a) (snd a)))
          (List.product (channels p) (clips p)))"
  unfolding calcCombos_def outer_loop_product
  by (rule array_sort_map) (auto simp: split_def)

lemma channels_gridPsf [simp]: "channels (p\<lparr>gridPsf := g\<rparr>) = channels p"
  by (simp add: channels_def)

lemma clips_gridPsf [simp]: "clips (p\<lparr>gridPsf := g\<rparr>) = clips p"
  by (simp add: clips_def)

lemma numeric_products_positive: "positive_candidates p \<Longrightarrow> numeric_products p"
  by (simp add: positive_candidates_def numeric_products_def js_mul_not_NaN)

lemma numeric_products_finite:
  "\<forall>a\<in>set (channels p). isFinite a \<Longrightarrow> \<forall>b\<in>set (clips p). isFinite b \<Longrightarrow>
   numeric_products p"
  by (simp add: numeric_products_def js_mul_finite_not_NaN)

lemma product_not_NaN:
  "numeric_products p \<Longrightarrow> c \<in> set (calcCombos p) \<Longrightarrow> spacing_product c \<noteq> NaN"
  by (auto simp: numeric_products_def set_calcCombos)

lemma calcCombos_sorted_wrt:
  assumes "numeric_products p"
  shows "sorted_wrt (\<lambda>a b. js_le (spacing_product b) (spacing_product a)) (calcCombos p)"
proof -
  have "\<forall>z\<in>set (outer_loop (gridPsf p) (clipCap p) (channels p) (clips p) []).
          spacing_product z \<noteq> NaN \<and> js_double (spacing_product z)"
    using product_not_NaN [OF assms] by (simp add: calcCombos_def spacing_product_def)
  then show ?thesis
    unfolding calcCombos_def by (rule sorted_array_sort)
qed

lemma firstPassing_None: "(firstPassing cs = None) = (\<forall>c\<in>set cs. \<not> pass c)"
  by (induction cs) auto

lemma firstPassing_Some:
  "firstPassing cs = Some c \<Longrightarrow>
     \<exists>pre post. cs = pre @ c # post \<and> pass c \<and> (\<forall>d\<in>set pre. \<not> pass d)"
proof (induction cs)
  case Nil
  then show ?case by simp
next
  case (Cons a cs)
  show ?case
  proof (cases "pass a")
    case True
    with Cons.prems have "a = c" by simp
    with True have "a # cs = [] @ c # cs \<and> pass c \<and> (\<forall>d\<in>set []. \<not> pass d)" by simp
    then show ?thesis by blast
  next
    case False
    with Cons obtain pre post where
      "cs = pre @ c # post" "pass c" "\<forall>d\<in>set pre. \<not> pass d" by auto
    with False have
      "a # cs = (a # pre) @ c # post \<and> pass c \<and> (\<forall>d\<in>set (a # pre). \<not> pass d)"
      by simp
    then show ?thesis by blast
  qed
qed

section \<open>The sample inputs, evaluated\<close>

lemma compare_doubles:
  "is_double a \<Longrightarrow> is_double b \<Longrightarrow> js_lt (Fin 0) (js_sub (Fin b) (Fin a)) = (a < b)"
  using js_sub_positive [of "Fin a" "Fin b"] by simp

lemma channels_example: "channels example_params = [Fin 12, Fin 24]"
  by (simp add: channels_def example_params_def array_from_set_def compare_doubles)

lemma clips_example: "clips example_params = [Fin 48]"
  by (simp add: clips_def example_params_def array_from_set_def)

lemma positive_example: "positive_candidates example_params"
  by (simp add: positive_candidates_def channels_example clips_example)

lemma numeric_example: "numeric_products example_params"
  using positive_example by (rule numeric_products_positive)

lemma calcCombos_example_at:
  "calcCombos (example_params\<lparr>gridPsf := g\<rparr>) =
     [make_combo g (Fin 36) (Fin 24) (Fin 48), make_combo g (Fin 36) (Fin 12) (Fin 48)]"
proof -
  have "clipCap example_params = Fin 36" by (simp add: example_params_def)
  then show ?thesis
    by (simp add: calcCombos_eq_map channels_example clips_example compare_doubles)
qed

lemma example_params_grid: "example_params = example_params\<lparr>gridPsf := Fin 6\<rparr>"
  by (simp add: example_params_def)

lemma calcCombos_example:
  "calcCombos example_params =
     [\<lparr>channelOC = Fin 24, clipOC = Fin 48, tribAreaFt2 = Fin 8, loadPerClip = Fin 48,
       pass = False, safety = Fin (3 / 4)\<rparr>,
      \<lparr>channelOC = Fin 12, clipOC = Fin 48, tribAreaFt2 = Fin 4, loadPerClip = Fin 24,
       pass = True, safety = Fin (3 / 2)\<rparr>]"
proof -
  have "calcCombos example_params =
      [make_combo (Fin 6) (Fin 36) (Fin 24) (Fin 48),
       make_combo (Fin 6) (Fin 36) (Fin 12) (Fin 48)]"
    using calcCombos_example_at [of "Fin 6"] example_params_grid by simp
  then show ?thesis
    by (simp add: make_combo_def Let_def)
qed

lemma calcCombos_single_pair:
  "calcCombos (single_pair_params g) = [make_combo g (Fin 36) (Fin 24) (Fin 48)]"
  by (simp add: calcCombos_eq_map channels_def clips_def single_pair_params_def
      array_from_set_def)

lemma positive_single_pair: "positive_candidates (single_pair_params g)"
  by (simp add: positive_candidates_def channels_def clips_def single_pair_params_def
      array_from_set_def)

text \<open>The rounding tie: the four products and their order.\<close>

lemma fin_result_fixed: "fin_result x = Fin x \<Longrightarrow> is_double x"
  by (auto simp: fin_result_def is_double_def split: if_splits)

lemma tie_product_low: "fin_result 9007199321849856 = Fin 9007199321849856"
  using fin_result_up [of 9007199321849856 1] by simp

lemma tie_product_rounded: "fin_result 18014398509481983 = Fin 18014398509481984"
  using fin_result_up [of 18014398509481983 1] by (simp add: round_half_even_def)

lemma tie_product_exact: "fin_result 18014398509481984 = Fin 18014398509481984"
  using fin_result_up [of 18014398509481984 2] by simp

lemma tie_product_high: "fin_result 36028796750528512 = Fin 36028796750528512"
  using fin_result_up [of 36028796750528512 2] by simp

lemmas tie_products = tie_product_low tie_product_rounded tie_product_exact tie_product_high

lemma tie_doubles:
  "is_double 9007199321849856" "is_double 18014398509481984" "is_double 36028796750528512"
  by (rule fin_result_fixed, rule tie_products)+

lemma channels_tie: "channels tie_params = [Fin 134217729, Fin 268435456]"
  by (simp add: channels_def tie_params_def array_from_set_def compare_doubles)

lemma clips_tie: "clips tie_params = [Fin 67108864, Fin 134217727]"
  by (simp add: clips_def tie_params_def array_from_set_def compare_doubles)

lemma positive_tie: "positive_candidates tie_params"
  by (simp add: positive_candidates_def channels_tie clips_tie)

lemma calcCombos_tie_at:
  "calcCombos (tie_params\<lparr>gridPsf := g\<rparr>) =
     [make_combo g (Fin 36) (Fin 268435456) (Fin 134217727),
      make_combo g (Fin 36) (Fin 134217729) (Fin 134217727),
      make_combo g (Fin 36) (Fin 268435456) (Fin 67108864),
      make_combo g (Fin 36) (Fin 134217729) (Fin 67108864)]"
proof -
  have "clipCap tie_params = Fin 36" by (simp add: tie_params_def)
  then show ?thesis
    by (simp add: calcCombos_eq_map channels_tie clips_tie tie_products tie_doubles
        compare_doubles)
qed

lemma tie_trib: "js_div (Fin 18014398509481984) (Fin 144) = Fin (2001599834386887 / 16)"
  using fin_result_down [of "18014398509481984 / 144" 6] by (simp add: round_half_even_def)

lemma tie_load: "js_mul (Fin (2001599834386887 / 16)) (Fin (243 / 2 ^ 50)) = Fin 27"
  using fin_result_down [of "2001599834386887 / 16 * (243 / 2 ^ 50)" 48]
  by (simp add: round_half_even_def)

lemma tie_trib_high: "js_div (Fin 36028796750528512) (Fin 144) = Fin (8006399277895225 / 32)"
  using fin_result_down [of "36028796750528512 / 144" 5] by (simp add: round_half_even_def)

lemma tie_load_high:
  "js_mul (Fin (8006399277895225 / 32)) (Fin (243 / 2 ^ 50)) = Fin (3623878629 / 67108864)"
  using fin_result_down [of "8006399277895225 / 32 * (243 / 2 ^ 50)" 47]
  by (simp add: round_half_even_def)

lemma tie_loads:
  "loadPerClip (make_combo (Fin (243 / 2 ^ 50)) cap (Fin 134217729) (Fin 134217727)) = Fin 27"
  "loadPerClip (make_combo (Fin (243 / 2 ^ 50)) cap (Fin 268435456) (Fin 67108864)) = Fin 27"
  "loadPerClip (make_combo (Fin (243 / 2 ^ 50)) cap (Fin 268435456) (Fin 134217727))
     = Fin (3623878629 / 67108864)"
proof -
  have "js_mul (Fin 134217729) (Fin 134217727) = Fin 18014398509481984"
    by (simp add: tie_products)
  then show "loadPerClip (make_combo (Fin (243 / 2 ^ 50)) cap (Fin 134217729) (Fin 134217727))
      = Fin 27"
    by (simp only: make_combo_simps tie_trib tie_load)
  have "js_mul (Fin 268435456) (Fin 67108864) = Fin 18014398509481984"
    by (simp add: tie_products)
  then show "loadPerClip (make_combo (Fin (243 / 2 ^ 50)) cap (Fin 268435456) (Fin 67108864))
      = Fin 27"
    by (simp only: make_combo_simps tie_trib tie_load)
  have "js_mul (Fin 268435456) (Fin 134217727) = Fin 36028796750528512"
    by (simp add: tie_products)
  then show "loadPerClip (make_combo (Fin (243 / 2 ^ 50)) cap (Fin 268435456) (Fin 134217727))
      = Fin (3623878629 / 67108864)"
    by (simp only: make_combo_simps tie_trib_high tie_load_high)
qed

lemma tie_pass:
  "pass (make_combo (Fin (243 / 2 ^ 50)) (Fin 36) (Fin 134217729) (Fin 134217727))"
  "pass (make_combo (Fin (243 / 2 ^ 50)) (Fin 36) (Fin 268435456) (Fin 67108864))"
  "\<not> pass (make_combo (Fin (243 / 2 ^ 50)) (Fin 36) (Fin 268435456) (Fin 134217727))"
  unfolding pass_make_combo tie_loads by simp_all

section \<open>Two roundings in the sample calculations\<close>

text \<open>
  A load that is 36 only after rounding: 16 by 48 at a grid load of
  \<open>6.75 + 2^-50\<close> (the double after 6.75).  The tributary area is the double nearest
  to \<open>16 / 3\<close>; the exact product of the two is above 36 and rounds to it.
\<close>

lemma rounded_trib: "js_div (js_mul (Fin 16) (Fin 48)) (Fin 144) = Fin (6004799503160661 / 2 ^ 50)"
  using fin_result_down [of "768 / 144" 50] by (simp add: round_half_even_def)

lemma rounded_load:
  "loadPerClip (make_combo (Fin (7599824371187713 / 2 ^ 50)) (Fin 36) (Fin 16) (Fin 48)) = Fin 36"
proof -
  have "fin_result (6004799503160661 / 2 ^ 50 * (7599824371187713 / 2 ^ 50)) = Fin 36"
    using fin_result_down [of "6004799503160661 / 2 ^ 50 * (7599824371187713 / 2 ^ 50)" 47]
    by (simp add: round_half_even_def)
  then have "js_mul (Fin (6004799503160661 / 2 ^ 50)) (Fin (7599824371187713 / 2 ^ 50)) = Fin 36"
    by (simp only: js_mul.simps)
  then show ?thesis
    by (simp only: make_combo_simps rounded_trib)
qed

lemma rounded_load_passes:
  "36 < (16 * 48 / 144) * (7599824371187713 / 2 ^ 50 :: real)"
  "pass (make_combo (Fin (7599824371187713 / 2 ^ 50)) (Fin 36) (Fin 16) (Fin 48))"
proof -
  show "36 < (16 * 48 / 144) * (7599824371187713 / 2 ^ 50 :: real)" by simp
  show "pass (make_combo (Fin (7599824371187713 / 2 ^ 50)) (Fin 36) (Fin 16) (Fin 48))"
    unfolding pass_make_combo rounded_load by simp
qed

lemma epsilon_small: "round_double (1 / 1000000) \<le> 1"
  using round_double_mono [of "1 / 1000000" 1] by simp

text \<open>
  A count that rounding raises: an area of 65 over the tributary area of 24 by 26.  The
  exact quotient is 15; the tributary area is rounded below \<open>13 / 3\<close>, the quotient is
  the double after 15, and its ceiling is 16.
\<close>

lemma rounded_count:
  "estimatedClipsOnGrid (Some (make_combo g cap (Fin 24) (Fin 26))) (Fin 65) = Fin 16"
proof -
  have trib: "js_div (js_mul (Fin 24) (Fin 26)) (Fin 144) = Fin (4878899596318037 / 2 ^ 50)"
    using fin_result_down [of "624 / 144" 50] by (simp add: round_half_even_def)
  have "round_double (1 / 1000000) \<le> 1" by (rule epsilon_small)
  then have eps: "\<not> 4878899596318037 / 2 ^ 50 < round_double (1 / 1000000)"
    by simp
  have quot: "js_div (Fin 65) (Fin (4878899596318037 / 2 ^ 50)) = Fin (8444249301319681 / 2 ^ 49)"
    using fin_result_down [of "65 / (4878899596318037 / 2 ^ 50)" 49]
    by (simp add: round_half_even_def)
  have max: "Math_max (Fin (4878899596318037 / 2 ^ 50)) (Fin (round_double (1 / 1000000)))
      = Fin (4878899596318037 / 2 ^ 50)"
    using eps by (simp only: Math_max.simps js_lt.simps if_False)
  have "Math_ceil (Fin (8444249301319681 / 2 ^ 49)) = Fin 16"
    by simp
  then show ?thesis
    unfolding estimatedClipsOnGrid_def
    by (simp only: option.case make_combo_simps trib max quot js_le.simps) simp
qed

section \<open>Load composition\<close>

text \<open>
  Claim C5.  The cloud contribution is \<open>cloudWeight / area\<close> when the mode is
  distributed and the area is positive, and exactly 0 otherwise.  The division is only
  reached with a positive (so nonzero) divisor; with area 0 the contribution is 0,
  a finite number, whatever the weight and the mode.
\<close>

theorem cloud_contribution_guarded:
  "(m = ''distributed'' \<and> js_lt (Fin 0) a \<longrightarrow>
      calcCloudAvgPsf m a w = js_div w a \<and> a \<noteq> Fin 0 \<and> a \<noteq> NaN)
   \<and> (\<not> (m = ''distributed'' \<and> js_lt (Fin 0) a) \<longrightarrow> calcCloudAvgPsf m a w = Fin 0)
   \<and> calcCloudAvgPsf m (Fin 0) w = Fin 0
   \<and> isFinite (calcCloudAvgPsf m (Fin 0) w)"
  by (cases a) (auto simp: calcCloudAvgPsf_def)

theorem cloud_contribution_guarded_witness:
  "calcCloudAvgPsf ''distributed'' (Fin 480) (Fin 240) = Fin (1 / 2)
   \<and> calcCloudAvgPsf ''dedicated'' (Fin 480) (Fin 240) = Fin 0
   \<and> calcCloudAvgPsf ''distributed'' (Fin 0) (Fin 240) = Fin 0"
  using cloud_contribution_guarded [of "''distributed''" "Fin 480" "Fin 240"]
    cloud_contribution_guarded [of "''dedicated''" "Fin 480" "Fin 240"]
    cloud_contribution_guarded [of "''distributed''" "Fin 0" "Fin 240"]
  by simp

section \<open>Fastener accounting\<close>

lemma is_double_of_nat: "n < 2 ^ 53 \<Longrightarrow> is_double (real n)"
proof -
  assume "n < 2 ^ 53"
  then have "int n < 2 ^ 53" by (metis of_nat_less_iff of_nat_numeral of_nat_power)
  then have "round_double (of_int (int n)) = of_int (int n)"
    by (intro round_double_of_int) simp
  then show ?thesis by (simp add: is_double_def)
qed

lemma fin_result_of_nat: "n < 2 ^ 53 \<Longrightarrow> fin_result (real n) = Fin (real n)"
proof -
  assume n: "n < 2 ^ 53"
  then have "real n < real (2 ^ 53)" by (simp only: of_nat_less_iff)
  then have "\<bar>real n\<bar> \<le> 2 ^ 53" by simp
  with is_double_of_nat [OF n] show ?thesis by (rule fin_result_small)
qed

lemma js_add_nat: "a + b < 2 ^ 53 \<Longrightarrow> js_add (Fin (real a)) (Fin (real b)) = Fin (real (a + b))"
  using fin_result_of_nat [of "a + b"] by simp

lemma js_mul_nat: "a * b < 2 ^ 53 \<Longrightarrow> js_mul (Fin (real a)) (Fin (real b)) = Fin (real (a * b))"
  using fin_result_of_nat [of "a * b"] by simp

text \<open>
  Claim C9.  The total is the grid count plus the dedicated count.  The dedicated count
  is 0 unless the mode is dedicated, and then it is 4 times the sum of the four cloud
  counts.  The grid count is 0 when there is no recommendation or the area is not
  positive, and otherwise the ceiling of the area over the tributary area (at least
  1e-6).
\<close>

theorem fastener_count_consistency:
  "totalClips (estimatedClipsOnGrid rec area) (dedicatedCloudClips m c1 c2 c3 c4) =
     js_add (estimatedClipsOnGrid rec area) (dedicatedCloudClips m c1 c2 c3 c4)
   \<and> (m \<noteq> ''dedicated'' \<longrightarrow> dedicatedCloudClips m c1 c2 c3 c4 = Fin 0)
   \<and> (m = ''dedicated'' \<longrightarrow>
        dedicatedCloudClips m c1 c2 c3 c4 = js_mul (js_add (js_add (js_add c1 c2) c3) c4) (Fin 4))
   \<and> (\<forall>n1 n2 n3 n4 :: nat. 4 * (n1 + n2 + n3 + n4) \<le> 1000000 \<longrightarrow>
        dedicatedCloudClips ''dedicated'' (Fin (real n1)) (Fin (real n2)) (Fin (real n3)) (Fin (real n4))
          = Fin (real (4 * (n1 + n2 + n3 + n4))))
   \<and> (rec = None \<or> js_le area (Fin 0) \<longrightarrow> estimatedClipsOnGrid rec area = Fin 0)
   \<and> (\<forall>r. rec = Some r \<and> \<not> js_le area (Fin 0) \<longrightarrow>
        estimatedClipsOnGrid rec area =
          Math_ceil (js_div area (Math_max (tribAreaFt2 r) (Fin (round_double (1 / 1000000))))))"
proof (intro conjI allI impI)
  fix n1 n2 n3 n4 :: nat
  assume le: "4 * (n1 + n2 + n3 + n4) \<le> 1000000"
  have big: "(1000000::nat) < 2 ^ 53" by simp
  have small: "k < 2 ^ 53" if "k \<le> 1000000" for k :: nat
    using that big by (rule le_less_trans)
  have bounds: "n1 + n2 \<le> 1000000" "n1 + n2 + n3 \<le> 1000000"
    "n1 + n2 + n3 + n4 \<le> 1000000" "(n1 + n2 + n3 + n4) * 4 \<le> 1000000"
    using le by simp_all
  have s1: "js_add (Fin (real n1)) (Fin (real n2)) = Fin (real (n1 + n2))"
    by (intro js_add_nat small bounds)
  have s2: "js_add (Fin (real (n1 + n2))) (Fin (real n3)) = Fin (real (n1 + n2 + n3))"
    by (intro js_add_nat small bounds)
  have s3: "js_add (Fin (real (n1 + n2 + n3))) (Fin (real n4)) = Fin (real (n1 + n2 + n3 + n4))"
    by (intro js_add_nat small bounds)
  have "js_mul (Fin (real (n1 + n2 + n3 + n4))) (Fin (real 4))
      = Fin (real ((n1 + n2 + n3 + n4) * 4))"
    by (intro js_mul_nat small bounds)
  then have s4: "js_mul (Fin (real (n1 + n2 + n3 + n4))) (Fin 4)
      = Fin (real (4 * (n1 + n2 + n3 + n4)))"
    by (simp add: mult.commute)
  show "dedicatedCloudClips ''dedicated'' (Fin (real n1)) (Fin (real n2)) (Fin (real n3))
      (Fin (real n4)) = Fin (real (4 * (n1 + n2 + n3 + n4)))"
    unfolding dedicatedCloudClips_def by (simp only: s1 s2 s3 s4 if_False simp_thms)
qed (auto simp: totalClips_def dedicatedCloudClips_def estimatedClipsOnGrid_def
       split: option.splits)

theorem fastener_count_consistency_witness:
  "estimatedClipsOnGrid (Some (make_combo (Fin 6) (Fin 36) (Fin 12) (Fin 48))) (Fin 400) = Fin 100
   \<and> dedicatedCloudClips ''dedicated'' (Fin 1) (Fin 2) (Fin 0) (Fin 1) = Fin 16
   \<and> totalClips (Fin 100) (Fin 16) = Fin 116
   \<and> dedicatedCloudClips ''distributed'' (Fin 1) (Fin 2) (Fin 0) (Fin 1) = Fin 0
   \<and> estimatedClipsOnGrid None (Fin 400) = Fin 0
   \<and> estimatedClipsOnGrid (Some (make_combo (Fin 6) (Fin 36) (Fin 12) (Fin 48))) (Fin 0) = Fin 0"
proof -
  let ?r = "make_combo (Fin 6) (Fin 36) (Fin 12) (Fin 48)"
  note counts = fastener_count_consistency
    [of "Some ?r" "Fin 400" "''dedicated''" "Fin 1" "Fin 2" "Fin 0" "Fin 1"]
  note none = fastener_count_consistency
    [of None "Fin 400" "''distributed''" "Fin 1" "Fin 2" "Fin 0" "Fin 1"]
  note no_area = fastener_count_consistency
    [of "Some ?r" "Fin 0" "''distributed''" "Fin 1" "Fin 2" "Fin 0" "Fin 1"]
  have eps: "\<not> 4 < round_double (1 / 1000000)"
    using epsilon_small by linarith
  have area: "\<not> js_le (Fin 400) (Fin 0)" and zero: "js_le (Fin 0) (Fin 0)"
    by simp_all
  have "estimatedClipsOnGrid (Some ?r) (Fin 400) =
      Math_ceil (js_div (Fin 400) (Math_max (tribAreaFt2 ?r) (Fin (round_double (1 / 1000000)))))"
    using counts area by blast
  then have grid: "estimatedClipsOnGrid (Some ?r) (Fin 400) = Fin 100"
    by (simp add: eps)
  have "dedicatedCloudClips ''dedicated'' (Fin 1) (Fin 2) (Fin 0) (Fin 1) =
      js_mul (js_add (js_add (js_add (Fin 1) (Fin 2)) (Fin 0)) (Fin 1)) (Fin 4)"
    using counts by blast
  then have ded: "dedicatedCloudClips ''dedicated'' (Fin 1) (Fin 2) (Fin 0) (Fin 1) = Fin 16"
    by simp
  have "totalClips (estimatedClipsOnGrid (Some ?r) (Fin 400))
        (dedicatedCloudClips ''dedicated'' (Fin 1) (Fin 2) (Fin 0) (Fin 1)) =
      js_add (estimatedClipsOnGrid (Some ?r) (Fin 400))
        (dedicatedCloudClips ''dedicated'' (Fin 1) (Fin 2) (Fin 0) (Fin 1))"
    using counts by blast
  then have tot: "totalClips (Fin 100) (Fin 16) = Fin 116"
    unfolding grid ded by simp
  have mode: "''distributed'' \<noteq> ''dedicated''" by simp
  have d0: "dedicatedCloudClips ''distributed'' (Fin 1) (Fin 2) (Fin 0) (Fin 1) = Fin 0"
    using none mode by blast
  have g0: "estimatedClipsOnGrid None (Fin 400) = Fin 0"
    using none by blast
  have g1: "estimatedClipsOnGrid (Some ?r) (Fin 0) = Fin 0"
    using no_area zero by blast
  from grid ded tot d0 g0 g1 show ?thesis by blast
qed

section \<open>The dedicated-mount check\<close>

lemma dedicated_safety_values:
  "fin_result (48 / 5) = Fin (5404319552844595 / 562949953421312)"
  "fin_result (24 / 5) = Fin (5404319552844595 / 1125899906842624)"
  "fin_result (16 / 5) = Fin (3602879701896397 / 1125899906842624)"
  "fin_result (12 / 5) = Fin (5404319552844595 / 2251799813685248)"
  using fin_result_down [of "48 / 5" 49] fin_result_down [of "24 / 5" 50]
    fin_result_down [of "16 / 5" 51] fin_result_down [of "12 / 5" 51]
  by (simp_all add: round_half_even_def)

text \<open>
  Claim C4, as the code has it.  In dedicated mode \<open>dedicatedRows\<close> is the same four
  rows whatever the cloud counts (they are not among its inputs): one row per weight
  class 15, 30, 45, 60, with load the class weight over 4 and pass flag
  \<open>load <= 36\<close>.  In every other mode it is the empty sequence.  The safety factors
  are the doubles nearest to 9.6, 4.8, 3.2 and 2.4.
\<close>

theorem dedicatedRows_fixed:
  "(m = ''dedicated'' \<longrightarrow>
      dedicatedRows m =
        [\<lparr>name = ''4x1 (15 lb)'', load = Fin (15 / 4), row_pass = True,
          row_safety = Fin (5404319552844595 / 562949953421312)\<rparr>,
         \<lparr>name = ''4x2 (30 lb)'', load = Fin (15 / 2), row_pass = True,
          row_safety = Fin (5404319552844595 / 1125899906842624)\<rparr>,
         \<lparr>name = ''4x3 (45 lb)'', load = Fin (45 / 4), row_pass = True,
          row_safety = Fin (3602879701896397 / 1125899906842624)\<rparr>,
         \<lparr>name = ''4x4 (60 lb)'', load = Fin 15, row_pass = True,
          row_safety = Fin (5404319552844595 / 2251799813685248)\<rparr>])
   \<and> (m \<noteq> ''dedicated'' \<longrightarrow> dedicatedRows m = [])
   \<and> map load (dedicatedRows ''dedicated'') = map (\<lambda>w. js_div (Fin w) (Fin 4)) [15, 30, 45, 60]
   \<and> (\<forall>r\<in>set (dedicatedRows m). row_pass r = js_le (load r) CLIP_CAP)"
  by (simp add: dedicatedRows_def items_def CLIP_CAP_def dedicated_safety_values)

theorem dedicatedRows_fixed_witness:
  "length (dedicatedRows ''dedicated'') = 4
   \<and> map row_pass (dedicatedRows ''dedicated'') = [True, True, True, True]
   \<and> map load (dedicatedRows ''dedicated'') = [Fin (15 / 4), Fin (15 / 2), Fin (45 / 4), Fin 15]
   \<and> dedicatedRows ''distributed'' = []"
  using dedicatedRows_fixed [of "''dedicated''"] dedicatedRows_fixed [of "''distributed''"]
  by simp

theorem dedicatedRows_mode_counterexample:
  "dedicatedRows ''distributed'' = [] \<and> length (dedicatedRows ''dedicated'') = 4"
  by (simp add: dedicatedRows_def items_def)

section \<open>Ordering and selection\<close>

lemma spacing_product_exact:
  "exact_products p \<Longrightarrow> c \<in> set (calcCombos p) \<Longrightarrow> spacing_product c = Fin (exact_product c)"
  by (auto elim!: in_calcCombosE simp: exact_products_def exact_product_def)

lemma exact_products_numeric: "exact_products p \<Longrightarrow> numeric_products p"
  by (simp add: exact_products_def numeric_products_def)

lemma exact_example: "exact_products example_params"
  by (simp add: exact_products_def channels_example clips_example)

lemma tie_params_grid: "tie_params = tie_params\<lparr>gridPsf := Fin (243 / 2 ^ 50)\<rparr>"
  by (simp add: tie_params_def)

lemma calcCombos_tie:
  "calcCombos tie_params =
     [make_combo (Fin (243 / 2 ^ 50)) (Fin 36) (Fin 268435456) (Fin 134217727),
      make_combo (Fin (243 / 2 ^ 50)) (Fin 36) (Fin 134217729) (Fin 134217727),
      make_combo (Fin (243 / 2 ^ 50)) (Fin 36) (Fin 268435456) (Fin 67108864),
      make_combo (Fin (243 / 2 ^ 50)) (Fin 36) (Fin 134217729) (Fin 67108864)]"
  using calcCombos_tie_at [of "Fin (243 / 2 ^ 50)"] tie_params_grid by simp

lemma exact_product_make_combo [simp]:
  "exact_product (make_combo g cap (Fin a) (Fin b)) = a * b"
  by (simp add: exact_product_def)

text \<open>
  Claim C2, as the code has it.  Whenever the products of the candidates are numbers (so
  for every input with positive spacing candidates, and for every input with finite
  ones), every adjacent pair of the enumerated sequence is in descending order of the
  product the code computes, the double nearest to \<open>channelOC * clipOC\<close>.  It is in
  descending order of the exact product when every product of two candidates is a
  double, so that no product is rounded.
\<close>

theorem calcCombos_descending:
  assumes "numeric_products p" and "Suc i < length (calcCombos p)"
  shows "js_le (spacing_product (calcCombos p ! Suc i)) (spacing_product (calcCombos p ! i))
       \<and> (exact_products p \<longrightarrow>
            exact_product (calcCombos p ! Suc i) \<le> exact_product (calcCombos p ! i))"
proof -
  have le: "js_le (spacing_product (calcCombos p ! Suc i)) (spacing_product (calcCombos p ! i))"
    using sorted_wrt_nth_less [OF calcCombos_sorted_wrt [OF assms(1)], of i "Suc i"] assms(2)
    by simp
  have "exact_product (calcCombos p ! Suc i) \<le> exact_product (calcCombos p ! i)"
    if ex: "exact_products p"
  proof -
    have "calcCombos p ! Suc i \<in> set (calcCombos p)" "calcCombos p ! i \<in> set (calcCombos p)"
      using assms(2) by simp_all
    then have "spacing_product (calcCombos p ! Suc i) = Fin (exact_product (calcCombos p ! Suc i))"
      "spacing_product (calcCombos p ! i) = Fin (exact_product (calcCombos p ! i))"
      by (simp_all only: spacing_product_exact [OF ex])
    with le show ?thesis by simp
  qed
  with le show ?thesis by blast
qed

theorem calcCombos_descending_witness:
  "numeric_products example_params
   \<and> exact_products example_params
   \<and> Suc 0 < length (calcCombos example_params)
   \<and> spacing_product (calcCombos example_params ! 0) = Fin 1152
   \<and> spacing_product (calcCombos example_params ! Suc 0) = Fin 576
   \<and> js_le (spacing_product (calcCombos example_params ! Suc 0))
        (spacing_product (calcCombos example_params ! 0))
   \<and> exact_product (calcCombos example_params ! Suc 0)
        \<le> exact_product (calcCombos example_params ! 0)"
proof -
  have len: "Suc 0 < length (calcCombos example_params)"
    by (simp add: calcCombos_example)
  have products: "spacing_product (calcCombos example_params ! 0) = Fin 1152"
    "spacing_product (calcCombos example_params ! Suc 0) = Fin 576"
    by (simp_all add: calcCombos_example spacing_product_def)
  note desc = calcCombos_descending [OF numeric_example len]
  have "js_le (spacing_product (calcCombos example_params ! Suc 0))
        (spacing_product (calcCombos example_params ! 0))"
    using desc by (rule conjunct1)
  moreover have "exact_product (calcCombos example_params ! Suc 0)
        \<le> exact_product (calcCombos example_params ! 0)"
    using desc exact_example by blast
  ultimately show ?thesis
    using numeric_example exact_example len products by blast
qed

text \<open>
  The order of the exact products fails at a rounding tie.  With channel spacings
  134217729 and 268435456 and clip spacings 67108864 and 134217727 (all of them doubles),
  the exact product \<open>134217729 * 134217727 = 2^54 - 1\<close> is rounded to \<open>2^54\<close>, the
  product \<open>268435456 * 67108864\<close>; the comparator finds no difference, the stable sort
  keeps the pair pushed first in front, and the smaller exact product comes before the
  larger.
\<close>

theorem calcCombos_descending_counterexample:
  "numeric_products tie_params
   \<and> is_double 134217729 \<and> is_double 268435456 \<and> is_double 67108864 \<and> is_double 134217727
   \<and> Suc 1 < length (calcCombos tie_params)
   \<and> channelOC (calcCombos tie_params ! 1) = Fin 134217729
   \<and> clipOC (calcCombos tie_params ! 1) = Fin 134217727
   \<and> channelOC (calcCombos tie_params ! Suc 1) = Fin 268435456
   \<and> clipOC (calcCombos tie_params ! Suc 1) = Fin 67108864
   \<and> spacing_product (calcCombos tie_params ! 1) = Fin 18014398509481984
   \<and> spacing_product (calcCombos tie_params ! Suc 1) = Fin 18014398509481984
   \<and> exact_product (calcCombos tie_params ! 1) = 18014398509481983
   \<and> exact_product (calcCombos tie_params ! Suc 1) = 18014398509481984
   \<and> exact_product (calcCombos tie_params ! 1) < exact_product (calcCombos tie_params ! Suc 1)"
proof -
  have numeric: "numeric_products tie_params"
    using positive_tie by (rule numeric_products_positive)
  have doubles: "is_double 134217729" "is_double 268435456" "is_double 67108864"
    "is_double 134217727"
    by simp_all
  have elems: "calcCombos tie_params ! 1 =
      make_combo (Fin (243 / 2 ^ 50)) (Fin 36) (Fin 134217729) (Fin 134217727)"
    "calcCombos tie_params ! Suc 1 =
      make_combo (Fin (243 / 2 ^ 50)) (Fin 36) (Fin 268435456) (Fin 67108864)"
    by (simp_all add: calcCombos_tie)
  have len: "Suc 1 < length (calcCombos tie_params)"
    by (simp add: calcCombos_tie)
  have sp: "spacing_product (calcCombos tie_params ! 1) = Fin 18014398509481984"
    "spacing_product (calcCombos tie_params ! Suc 1) = Fin 18014398509481984"
    unfolding elems by (simp_all add: tie_products)
  have ex: "exact_product (calcCombos tie_params ! 1) = 18014398509481983"
    "exact_product (calcCombos tie_params ! Suc 1) = 18014398509481984"
    unfolding elems by simp_all
  have fields: "channelOC (calcCombos tie_params ! 1) = Fin 134217729"
    "clipOC (calcCombos tie_params ! 1) = Fin 134217727"
    "channelOC (calcCombos tie_params ! Suc 1) = Fin 268435456"
    "clipOC (calcCombos tie_params ! Suc 1) = Fin 67108864"
    unfolding elems by simp_all
  have "exact_product (calcCombos tie_params ! 1) < exact_product (calcCombos tie_params ! Suc 1)"
    unfolding ex by simp
  with numeric doubles len fields sp ex show ?thesis by blast
qed

text \<open>
  Claim C1, as the code has it.  With positive spacing candidates (and any grid load), a
  combo returned by \<open>firstPassing\<close> on the enumerated sequence is an element of it
  that passes, and no passing element of the sequence has a strictly larger computed
  product (the double nearest to \<open>channelOC * clipOC\<close>); when every product of two
  candidates is a double, no passing element has a larger exact product.  The result is
  absent exactly when no element passes.
\<close>

theorem firstPassing_widest:
  assumes "positive_candidates p"
  shows "(\<forall>c. firstPassing (calcCombos p) = Some c \<longrightarrow>
            c \<in> set (calcCombos p) \<and> pass c \<and>
            (\<forall>d\<in>set (calcCombos p). pass d \<longrightarrow> \<not> js_lt (spacing_product c) (spacing_product d)) \<and>
            (exact_products p \<longrightarrow>
               (\<forall>d\<in>set (calcCombos p). pass d \<longrightarrow> exact_product d \<le> exact_product c)))
         \<and> ((firstPassing (calcCombos p) = None) = (\<forall>c\<in>set (calcCombos p). \<not> pass c))"
proof (intro conjI allI impI)
  fix c
  assume fp: "firstPassing (calcCombos p) = Some c"
  from firstPassing_Some [OF fp] obtain pre post where
    split: "calcCombos p = pre @ c # post" and pc: "pass c" and pre: "\<forall>d\<in>set pre. \<not> pass d"
    by blast
  show mem: "c \<in> set (calcCombos p)" using split by simp
  show "pass c" by (rule pc)
  note numeric = numeric_products_positive [OF assms]
  have sorted: "sorted_wrt (\<lambda>a b. js_le (spacing_product b) (spacing_product a)) (pre @ c # post)"
    using calcCombos_sorted_wrt [OF numeric] split by simp
  have le: "js_le (spacing_product d) (spacing_product c)"
    if d: "d \<in> set (calcCombos p)" and pd: "pass d" for d
  proof -
    from d pd pre split have "d = c \<or> d \<in> set post" by auto
    then show ?thesis
    proof
      assume "d = c"
      moreover have "spacing_product c \<noteq> NaN"
        using product_not_NaN [OF numeric] split by simp
      ultimately show ?thesis by (simp add: js_le_refl)
    next
      assume "d \<in> set post"
      with sorted show ?thesis by (simp add: sorted_wrt_append)
    qed
  qed
  show "\<forall>d\<in>set (calcCombos p). pass d \<longrightarrow> \<not> js_lt (spacing_product c) (spacing_product d)"
  proof (intro ballI impI)
    fix d
    assume "d \<in> set (calcCombos p)" and "pass d"
    then have "js_le (spacing_product d) (spacing_product c)" by (rule le)
    then show "\<not> js_lt (spacing_product c) (spacing_product d)" by (rule js_le_not_lt)
  qed
  show "\<forall>d\<in>set (calcCombos p). pass d \<longrightarrow> exact_product d \<le> exact_product c"
    if ex: "exact_products p"
  proof (intro ballI impI)
    fix d
    assume d: "d \<in> set (calcCombos p)" and pd: "pass d"
    have "spacing_product d = Fin (exact_product d)" "spacing_product c = Fin (exact_product c)"
      using d mem by (simp_all only: spacing_product_exact [OF ex])
    with le [OF d pd] show "exact_product d \<le> exact_product c" by simp
  qed
next
  show "(firstPassing (calcCombos p) = None) = (\<forall>c\<in>set (calcCombos p). \<not> pass c)"
    by (rule firstPassing_None)
qed

theorem firstPassing_widest_witness:
  "positive_candidates (example_params\<lparr>gridPsf := Fin 1\<rparr>)
   \<and> exact_products (example_params\<lparr>gridPsf := Fin 1\<rparr>)
   \<and> firstPassing (calcCombos (example_params\<lparr>gridPsf := Fin 1\<rparr>))
       = Some (make_combo (Fin 1) (Fin 36) (Fin 24) (Fin 48))
   \<and> pass (make_combo (Fin 1) (Fin 36) (Fin 24) (Fin 48))
   \<and> pass (make_combo (Fin 1) (Fin 36) (Fin 12) (Fin 48))
   \<and> \<not> js_lt (spacing_product (make_combo (Fin 1) (Fin 36) (Fin 24) (Fin 48)))
            (spacing_product (make_combo (Fin 1) (Fin 36) (Fin 12) (Fin 48)))
   \<and> exact_product (make_combo (Fin 1) (Fin 36) (Fin 12) (Fin 48))
       \<le> exact_product (make_combo (Fin 1) (Fin 36) (Fin 24) (Fin 48))
   \<and> positive_candidates (single_pair_params (Fin 5))
   \<and> firstPassing (calcCombos (single_pair_params (Fin 5))) = None
   \<and> \<not> pass (make_combo (Fin 5) (Fin 36) (Fin 24) (Fin 48))"
proof -
  let ?p = "example_params\<lparr>gridPsf := Fin 1\<rparr>"
  let ?wide = "make_combo (Fin 1) (Fin 36) (Fin 24) (Fin 48)"
  let ?narrow = "make_combo (Fin 1) (Fin 36) (Fin 12) (Fin 48)"
  have pos: "positive_candidates ?p"
    using positive_example by (simp add: positive_candidates_def)
  have exact: "exact_products ?p"
    using exact_example by (simp add: exact_products_def)
  have cs: "calcCombos ?p = [?wide, ?narrow]"
    by (rule calcCombos_example_at)
  have pw: "pass ?wide" and pn: "pass ?narrow"
    by (simp_all add: pass_make_combo)
  have fp: "firstPassing (calcCombos ?p) = Some ?wide"
    by (simp add: cs pw)
  have mem: "?narrow \<in> set (calcCombos ?p)"
    unfolding cs by simp
  have "\<forall>d\<in>set (calcCombos ?p). pass d \<longrightarrow>
          \<not> js_lt (spacing_product ?wide) (spacing_product d)"
    using firstPassing_widest [OF pos] fp by blast
  then have no_larger: "\<not> js_lt (spacing_product ?wide) (spacing_product ?narrow)"
    using mem pn by blast
  have "\<forall>d\<in>set (calcCombos ?p). pass d \<longrightarrow> exact_product d \<le> exact_product ?wide"
    using firstPassing_widest [OF pos] fp exact by blast
  then have widest: "exact_product ?narrow \<le> exact_product ?wide"
    using mem pn by blast
  have pos5: "positive_candidates (single_pair_params (Fin 5))"
    by (rule positive_single_pair)
  have fail5: "\<not> pass (make_combo (Fin 5) (Fin 36) (Fin 24) (Fin 48))"
    by (simp add: pass_make_combo)
  have "(firstPassing (calcCombos (single_pair_params (Fin 5))) = None) =
      (\<forall>c\<in>set (calcCombos (single_pair_params (Fin 5))). \<not> pass c)"
    using firstPassing_widest [OF pos5] by blast
  then have none5: "firstPassing (calcCombos (single_pair_params (Fin 5))) = None"
    unfolding calcCombos_single_pair using fail5 by simp
  from pos exact fp pw pn no_larger widest pos5 none5 fail5 show ?thesis by blast
qed

text \<open>
  The exact product of the returned combo is not always the largest.  At the rounding
  tie above, with a grid load of \<open>243 * 2^-50\<close> and capacity 36, the widest pair
  (load about 54) fails and the two tied pairs both carry a load of 27 and pass.  The
  scan returns the first of them, 134217729 by 134217727, whose exact product
  \<open>2^54 - 1\<close> is below the \<open>2^54\<close> of the passing pair 268435456 by 67108864.
\<close>

theorem firstPassing_widest_counterexample:
  "positive_candidates tie_params
   \<and> is_double (243 / 2 ^ 50)
   \<and> firstPassing (calcCombos tie_params)
       = Some (make_combo (Fin (243 / 2 ^ 50)) (Fin 36) (Fin 134217729) (Fin 134217727))
   \<and> make_combo (Fin (243 / 2 ^ 50)) (Fin 36) (Fin 268435456) (Fin 67108864)
       \<in> set (calcCombos tie_params)
   \<and> pass (make_combo (Fin (243 / 2 ^ 50)) (Fin 36) (Fin 268435456) (Fin 67108864))
   \<and> loadPerClip (make_combo (Fin (243 / 2 ^ 50)) (Fin 36) (Fin 134217729) (Fin 134217727))
       = Fin 27
   \<and> loadPerClip (make_combo (Fin (243 / 2 ^ 50)) (Fin 36) (Fin 268435456) (Fin 67108864))
       = Fin 27
   \<and> exact_product (make_combo (Fin (243 / 2 ^ 50)) (Fin 36) (Fin 134217729) (Fin 134217727))
       < exact_product (make_combo (Fin (243 / 2 ^ 50)) (Fin 36) (Fin 268435456) (Fin 67108864))"
proof -
  have grid: "is_double (243 / 2 ^ 50)"
    by (rule is_double_numeral_dyadic) simp_all
  have fp: "firstPassing (calcCombos tie_params)
       = Some (make_combo (Fin (243 / 2 ^ 50)) (Fin 36) (Fin 134217729) (Fin 134217727))"
    unfolding calcCombos_tie by (simp only: firstPassing.simps tie_pass if_True if_False)
  have mem: "make_combo (Fin (243 / 2 ^ 50)) (Fin 36) (Fin 268435456) (Fin 67108864)
       \<in> set (calcCombos tie_params)"
    unfolding calcCombos_tie by simp
  have "exact_product (make_combo (Fin (243 / 2 ^ 50)) (Fin 36) (Fin 134217729) (Fin 134217727))
       < exact_product (make_combo (Fin (243 / 2 ^ 50)) (Fin 36) (Fin 268435456) (Fin 67108864))"
    by simp
  with positive_tie grid fp mem tie_pass(2) tie_loads(1,2) show ?thesis by blast
qed

section \<open>Per-combination results\<close>

text \<open>
  Claim C3, as the code has it.  For every enumerated combo the safety factor is
  \<open>clipCap / loadPerClip\<close> when the load is finite and positive, and \<open>+\<infinity>\<close>
  otherwise; so a load that is not finite (\<open>+\<infinity>\<close>, \<open>-\<infinity>\<close> or NaN) always has safety
  factor \<open>+\<infinity>\<close>.
\<close>

theorem safety_rule:
  "\<forall>c\<in>set (calcCombos p).
     safety c =
       (if isFinite (loadPerClip c) \<and> js_lt (Fin 0) (loadPerClip c)
        then js_div (clipCap p) (loadPerClip c) else PInf)
     \<and> (\<not> isFinite (loadPerClip c) \<longrightarrow> safety c = PInf)"
  by (auto elim!: in_calcCombosE simp: safety_make_combo)

theorem safety_rule_witness:
  "map loadPerClip (calcCombos example_params) = [Fin 48, Fin 24]
   \<and> map safety (calcCombos example_params) =
       [js_div (Fin 36) (Fin 48), js_div (Fin 36) (Fin 24)]
   \<and> map loadPerClip (calcCombos (single_pair_params NaN)) = [NaN]
   \<and> map safety (calcCombos (single_pair_params NaN)) = [PInf]"
proof -
  have cap: "clipCap example_params = Fin 36"
    by (simp add: example_params_def)
  have loads: "map loadPerClip (calcCombos example_params) = [Fin 48, Fin 24]"
    by (simp add: calcCombos_example)
  have "\<forall>c\<in>set (calcCombos example_params).
     safety c =
       (if isFinite (loadPerClip c) \<and> js_lt (Fin 0) (loadPerClip c)
        then js_div (Fin 36) (loadPerClip c) else PInf)"
    using safety_rule [of example_params] unfolding cap by blast
  then have "map safety (calcCombos example_params) =
       [js_div (Fin 36) (Fin 48), js_div (Fin 36) (Fin 24)]"
    by (simp add: calcCombos_example)
  moreover have nan: "map loadPerClip (calcCombos (single_pair_params NaN)) = [NaN]"
    by (simp add: calcCombos_single_pair)
  moreover have "\<forall>c\<in>set (calcCombos (single_pair_params NaN)).
      \<not> isFinite (loadPerClip c) \<longrightarrow> safety c = PInf"
    using safety_rule [of "single_pair_params NaN"] by blast
  then have "map safety (calcCombos (single_pair_params NaN)) = [PInf]"
    by (simp add: calcCombos_single_pair)
  ultimately show ?thesis using loads by blast
qed

text \<open>
  The rule without the finiteness test fails at an infinite load: there the load is
  positive, \<open>clipCap / loadPerClip\<close> is 0, and the safety factor is \<open>+\<infinity>\<close>.
\<close>

theorem safety_rule_counterexample:
  "calcCombos (single_pair_params PInf) =
     [\<lparr>channelOC = Fin 24, clipOC = Fin 48, tribAreaFt2 = Fin 8, loadPerClip = PInf,
       pass = False, safety = PInf\<rparr>]
   \<and> js_lt (Fin 0) PInf
   \<and> js_div (clipCap (single_pair_params PInf)) PInf = Fin 0
   \<and> PInf \<noteq> Fin 0"
proof -
  have "clipCap (single_pair_params PInf) = Fin 36"
    by (simp add: single_pair_params_def)
  then show ?thesis
    unfolding calcCombos_single_pair
    by (simp add: make_combo_def Let_def)
qed

text \<open>
  Claim C6.  With a capacity that is not negative (the component passes 36), every
  enumerated combo with a finite load has \<open>pass\<close> equal to the comparison
  \<open>loadPerClip <= clipCap\<close>; a finite negative load is not filtered and passes.
\<close>

theorem negative_load_passes:
  assumes "js_le (Fin 0) (clipCap p)" and "c \<in> set (calcCombos p)"
  shows "(isFinite (loadPerClip c) \<longrightarrow> pass c = js_le (loadPerClip c) (clipCap p))
       \<and> (isFinite (loadPerClip c) \<and> js_lt (loadPerClip c) (Fin 0) \<longrightarrow> pass c)"
proof -
  from assms(2) obtain ch cl where c: "c = make_combo (gridPsf p) (clipCap p) ch cl"
    by (rule in_calcCombosE)
  have "js_le l (clipCap p)" if "isFinite l" "js_lt l (Fin 0)" for l
    using that assms(1) by (cases l; cases "clipCap p") auto
  then show ?thesis
    unfolding c by (auto simp: pass_make_combo)
qed

theorem negative_load_passes_witness:
  "js_le (Fin 0) (clipCap (single_pair_params (Fin (- 1))))
   \<and> make_combo (Fin (- 1)) (Fin 36) (Fin 24) (Fin 48)
       \<in> set (calcCombos (single_pair_params (Fin (- 1))))
   \<and> loadPerClip (make_combo (Fin (- 1)) (Fin 36) (Fin 24) (Fin 48)) = Fin (- 8)
   \<and> pass (make_combo (Fin (- 1)) (Fin 36) (Fin 24) (Fin 48))"
proof -
  let ?c = "make_combo (Fin (- 1)) (Fin 36) (Fin 24) (Fin 48)"
  have cap: "js_le (Fin 0) (clipCap (single_pair_params (Fin (- 1))))"
    by (simp add: single_pair_params_def)
  have mem: "?c \<in> set (calcCombos (single_pair_params (Fin (- 1))))"
    by (simp add: calcCombos_single_pair)
  have load: "loadPerClip ?c = Fin (- 8)"
    by simp
  have "pass ?c"
    using negative_load_passes [OF cap mem, THEN conjunct2] unfolding load by simp
  with cap mem load show ?thesis by blast
qed

text \<open>
  Claim C7.  The enumerated sequence has one combo for each pair of the cross product:
  its length is \<open>|A| * |B|\<close>, where \<open>A\<close> is the set of channel spacings and \<open>B\<close>
  the set of clip spacings (or the one structure spacing), and the combo of every pair
  is in it.  A combo whose load is not finite is kept and has \<open>pass = false\<close>.
\<close>

theorem nonfinite_load_kept:
  "length (calcCombos p) = length (channels p) * length (clips p)
   \<and> length (channels p) = card (set (allowedChannelSpacings p))
   \<and> length (clips p) =
       (if constrainToStructure p then 1 else card (set (allowedClipSpacings p)))
   \<and> (\<forall>a\<in>set (channels p). \<forall>b\<in>set (clips p).
         make_combo (gridPsf p) (clipCap p) a b \<in> set (calcCombos p))
   \<and> (\<forall>c\<in>set (calcCombos p). \<not> isFinite (loadPerClip c) \<longrightarrow> \<not> pass c)"
proof (intro conjI)
  show "length (calcCombos p) = length (channels p) * length (clips p)"
    by (rule length_calcCombos)
  have "distinct (channels p)" by (simp add: channels_def)
  then show "length (channels p) = card (set (allowedChannelSpacings p))"
    using distinct_card [of "channels p"] by (simp add: channels_def)
  show "length (clips p) =
      (if constrainToStructure p then 1 else card (set (allowedClipSpacings p)))"
    using distinct_card
      [of "array_sort (\<lambda>a b. js_sub a b) (array_from_set (allowedClipSpacings p))"]
    by (simp add: clips_def)
  show "\<forall>a\<in>set (channels p). \<forall>b\<in>set (clips p).
         make_combo (gridPsf p) (clipCap p) a b \<in> set (calcCombos p)"
    by (auto simp: set_calcCombos)
  show "\<forall>c\<in>set (calcCombos p). \<not> isFinite (loadPerClip c) \<longrightarrow> \<not> pass c"
    by (auto elim!: in_calcCombosE simp: pass_make_combo)
qed

theorem nonfinite_load_kept_witness:
  "length (calcCombos (example_params\<lparr>gridPsf := PInf\<rparr>)) = 2
   \<and> map loadPerClip (calcCombos (example_params\<lparr>gridPsf := PInf\<rparr>)) = [PInf, PInf]
   \<and> map pass (calcCombos (example_params\<lparr>gridPsf := PInf\<rparr>)) = [False, False]
   \<and> map loadPerClip (calcCombos (single_pair_params NaN)) = [NaN]
   \<and> map pass (calcCombos (single_pair_params NaN)) = [False]"
proof -
  let ?p = "example_params\<lparr>gridPsf := PInf\<rparr>"
  have loads: "map loadPerClip (calcCombos ?p) = [PInf, PInf]"
    by (simp add: calcCombos_example_at)
  have "length (calcCombos ?p) = length (channels ?p) * length (clips ?p)"
    using nonfinite_load_kept [of ?p] by (rule conjunct1)
  then have len: "length (calcCombos ?p) = 2"
    by (simp add: channels_example clips_example)
  have "\<forall>c\<in>set (calcCombos ?p). \<not> isFinite (loadPerClip c) \<longrightarrow> \<not> pass c"
    using nonfinite_load_kept [of ?p] by blast
  then have passes: "map pass (calcCombos ?p) = [False, False]"
    unfolding calcCombos_example_at by simp
  have nan: "map loadPerClip (calcCombos (single_pair_params NaN)) = [NaN]"
    by (simp add: calcCombos_single_pair)
  have "\<forall>c\<in>set (calcCombos (single_pair_params NaN)). \<not> isFinite (loadPerClip c) \<longrightarrow> \<not> pass c"
    using nonfinite_load_kept [of "single_pair_params NaN"] by blast
  then have "map pass (calcCombos (single_pair_params NaN)) = [False]"
    unfolding calcCombos_single_pair by simp
  with loads len passes nan show ?thesis by blast
qed

section \<open>Safety margin of a passing combination\<close>

text \<open>A quotient of two doubles: the rounded quotient is at least 1 exactly when the
  exact one is.\<close>

lemma one_less_overflow_bound: "1 < overflow_bound"
proof -
  have "(1::real) < 2 ^ 1023" by simp
  then show ?thesis using overflow_bound_gt by (rule less_trans)
qed

lemma js_le_one_fin_result:
  assumes "1 \<le> r"
  shows "js_le (Fin 1) (fin_result r)"
  using js_le_fin_result_mono [OF assms] by simp

lemma fin_result_below_one:
  assumes "is_double k" and "is_double x" and "0 < x" and "k < x"
  shows "\<not> js_le (Fin 1) (fin_result (k / x))"
proof (cases "0 < k")
  case True
  then have "round_double (k / x) < 1"
    using assms by (intro double_ratio_below_one)
  moreover have "k / x < 1" using assms(3,4) by simp
  then have "k / x < overflow_bound" using one_less_overflow_bound by (rule less_trans)
  moreover have "0 < k / x" using True assms(3) by simp
  then have "- overflow_bound < k / x" using overflow_bound_pos by linarith
  ultimately show ?thesis by (simp add: fin_result_def)
next
  case False
  then have "k / x \<le> 0" using assms(3) by (simp add: divide_le_0_iff)
  then have "js_le (fin_result (k / x)) (fin_result 0)" by (rule js_le_fin_result_mono)
  then show ?thesis by (cases "fin_result (k / x)") auto
qed

lemma isFinite_fin_result: "1 \<le> r \<Longrightarrow> isFinite (fin_result r) = (r < overflow_bound)"
  using overflow_bound_pos by (auto simp: fin_result_def)

text \<open>
  Claim C10, as the code has it.  For every enumerated combo with a positive load: if it
  passes, its safety factor is at least 1; when the load is finite (and the capacity is
  a number of the language, a double), it passes exactly when its safety factor is at
  least 1.  With a finite capacity \<open>k\<close> and a passing load \<open>x\<close> the safety factor is
  the rounded quotient \<open>k / x\<close>, which is finite only while the quotient stays within
  the range of a number; beyond it the safety factor is \<open>+\<infinity>\<close>.
\<close>

theorem passing_margin:
  assumes "c \<in> set (calcCombos p)" and "js_lt (Fin 0) (loadPerClip c)"
  shows "(pass c \<longrightarrow> js_le (Fin 1) (safety c))
       \<and> (isFinite (loadPerClip c) \<and> js_double (clipCap p) \<longrightarrow>
             pass c = js_le (Fin 1) (safety c))
       \<and> (\<forall>k x. pass c \<and> clipCap p = Fin k \<and> loadPerClip c = Fin x \<longrightarrow>
             safety c = fin_result (k / x) \<and> isFinite (safety c) = (k / x < overflow_bound))"
proof -
  from assms(1) obtain ch cl where c: "c = make_combo (gridPsf p) (clipCap p) ch cl"
    by (rule in_calcCombosE)
  define l where "l = loadPerClip c"
  have dl: "js_double l"
    unfolding l_def c by simp
  have pass: "pass c = (isFinite l \<and> js_le l (clipCap p))"
    unfolding l_def c by (rule pass_make_combo)
  have pos: "js_lt (Fin 0) l" using assms(2) by (simp add: l_def)
  have saf: "safety c = (if isFinite l then js_div (clipCap p) l else PInf)"
    unfolding l_def c using assms(2) by (simp add: safety_make_combo c)
  show ?thesis
  proof (cases l)
    case (Fin x)
    with pos dl have x: "0 < x" and dx: "is_double x" by simp_all
    show ?thesis
    proof (cases "clipCap p")
      case (Fin k)
      have p: "pass c = (x \<le> k)"
        using pass Fin \<open>l = Fin x\<close> by simp
      have s: "safety c = fin_result (k / x)"
        using saf Fin \<open>l = Fin x\<close> x by simp
      have one: "1 \<le> k / x" if "x \<le> k"
        using that x by simp
      have c1: "pass c \<longrightarrow> js_le (Fin 1) (safety c)"
        unfolding p s using one by (simp add: js_le_one_fin_result)
      have c2: "js_double (clipCap p) \<longrightarrow> pass c = js_le (Fin 1) (safety c)"
      proof
        assume "js_double (clipCap p)"
        then have dk: "is_double k" using Fin by simp
        show "pass c = js_le (Fin 1) (safety c)"
        proof (cases "x \<le> k")
          case True
          with one show ?thesis unfolding p s by (simp add: js_le_one_fin_result)
        next
          case False
          then have "k < x" by simp
          from fin_result_below_one [OF dk dx x this] False show ?thesis
            unfolding p s by simp
        qed
      qed
      have c3: "safety c = fin_result (k / x) \<and> isFinite (safety c) = (k / x < overflow_bound)"
        if "pass c"
        using that one unfolding p s by (simp add: isFinite_fin_result)
      from c1 c2 c3 show ?thesis
        using Fin \<open>l = Fin x\<close> by (auto simp: l_def [symmetric])
    qed (use x Fin pass saf in \<open>auto simp: l_def [symmetric]\<close>)
  qed (use pass saf pos in \<open>auto simp: l_def [symmetric]\<close>)
qed

theorem passing_margin_witness:
  "make_combo (Fin 6) (Fin 36) (Fin 12) (Fin 48) \<in> set (calcCombos example_params)
   \<and> loadPerClip (make_combo (Fin 6) (Fin 36) (Fin 12) (Fin 48)) = Fin 24
   \<and> pass (make_combo (Fin 6) (Fin 36) (Fin 12) (Fin 48))
   \<and> safety (make_combo (Fin 6) (Fin 36) (Fin 12) (Fin 48)) = Fin (3 / 2)
   \<and> js_le (Fin 1) (safety (make_combo (Fin 6) (Fin 36) (Fin 12) (Fin 48)))"
proof -
  let ?c = "make_combo (Fin 6) (Fin 36) (Fin 12) (Fin 48)"
  have "calcCombos example_params = [make_combo (Fin 6) (Fin 36) (Fin 24) (Fin 48), ?c]"
    using calcCombos_example_at [of "Fin 6"] example_params_grid by simp
  then have mem: "?c \<in> set (calcCombos example_params)" by simp
  have load: "loadPerClip ?c = Fin 24"
    by simp
  have pos: "js_lt (Fin 0) (loadPerClip ?c)"
    unfolding load by simp
  have p: "pass ?c"
    unfolding pass_make_combo load by simp
  have saf: "safety ?c = Fin (3 / 2)"
    unfolding safety_make_combo load by simp
  have "js_le (Fin 1) (safety ?c)"
    using passing_margin [OF mem pos, THEN conjunct1] p by blast
  with mem load p saf show ?thesis by blast
qed

text \<open>
  A passing combo with a positive load whose safety factor is not finite: at a grid
  load of \<open>2^-1074\<close> (the least positive number) on a tributary area of 8, the
  quotient \<open>36 / load\<close> overflows.
\<close>

theorem passing_margin_counterexample:
  "calcCombos (single_pair_params (Fin (1 / 2 ^ 1074))) =
     [\<lparr>channelOC = Fin 24, clipOC = Fin 48, tribAreaFt2 = Fin 8,
       loadPerClip = Fin (8 / 2 ^ 1074), pass = True, safety = PInf\<rparr>]
   \<and> js_lt (Fin 0) (Fin (8 / 2 ^ 1074))
   \<and> \<not> isFinite PInf"
proof -
  have "is_double (of_int 8 / 2 ^ 1074)"
    by (rule is_double_dyadic) simp_all
  then have "is_double (8 / 2 ^ 1074)" by simp
  then have "fin_result (8 / 2 ^ 1074) = Fin (8 / 2 ^ 1074)"
    by (rule fin_result_small) simp
  then have load: "js_mul (Fin 8) (Fin (1 / 2 ^ 1074)) = Fin (8 / 2 ^ 1074)"
    by simp
  have "overflow_bound \<le> 36 / (8 / 2 ^ 1074)"
    by (simp add: overflow_bound_def)
  then have "fin_result (36 / (8 / 2 ^ 1074)) = PInf"
    by (simp only: fin_result_def if_True)
  moreover have "(8 / 2 ^ 1074 :: real) \<noteq> 0" by simp
  ultimately have saf: "js_div (Fin 36) (Fin (8 / 2 ^ 1074)) = PInf"
    by (simp only: js_div.simps if_False)
  have trib: "js_div (js_mul (Fin 24) (Fin 48)) (Fin 144) = Fin 8"
    by simp
  have pos: "js_lt (Fin 0) (Fin (8 / 2 ^ 1074))" by simp
  have le: "js_le (Fin (8 / 2 ^ 1074)) (Fin 36)" by simp
  show ?thesis
    unfolding calcCombos_single_pair make_combo_def Let_def trib load saf
    using pos le by (simp only: isFinite.simps simp_thms if_True)
qed

section \<open>Monotonicity in the grid load\<close>

text \<open>Two loads in order, under a capacity that is not negative.\<close>

lemma fail_step:
  "js_le l1 l2 \<Longrightarrow> js_le (Fin 0) cap \<Longrightarrow> \<not> (isFinite l1 \<and> js_le l1 cap) \<Longrightarrow> l1 \<noteq> NInf \<Longrightarrow>
   \<not> (isFinite l2 \<and> js_le l2 cap)"
  by (cases l1; cases l2; cases cap) auto

lemma safety_step:
  assumes le: "js_le l1 l2" and cap: "js_le (Fin 0) cap" and l2: "l2 \<noteq> PInf"
  shows "js_le (if isFinite l2 \<and> js_lt (Fin 0) l2 then js_div cap l2 else PInf)
               (if isFinite l1 \<and> js_lt (Fin 0) l1 then js_div cap l1 else PInf)"
proof (cases "isFinite l2 \<and> js_lt (Fin 0) l2")
  case False
  with le l2 have "\<not> (isFinite l1 \<and> js_lt (Fin 0) l1)"
    by (cases l1; cases l2) auto
  with False show ?thesis by (simp only: if_False js_le.simps simp_thms)
next
  case True
  then obtain b where b: "l2 = Fin b" "0 < b" by (cases l2) auto
  have num: "js_div cap l2 \<noteq> NaN"
    using cap b by (cases cap) auto
  show ?thesis
  proof (cases "isFinite l1 \<and> js_lt (Fin 0) l1")
    case False
    have "js_le (js_div cap l2) PInf"
      using num by (simp only: js_le_PInf simp_thms)
    with True False show ?thesis by (simp only: if_True if_False simp_thms)
  next
    case pos: True
    then obtain a where a: "l1 = Fin a" "0 < a" by (cases l1) auto
    from le a b have ab: "a \<le> b" by simp
    have "js_le (js_div cap l2) (js_div cap l1)"
    proof (cases cap)
      case (Fin k)
      with cap have "0 \<le> k" by simp
      then have "k / b \<le> k / a"
        using ab a(2) b(2) by (intro divide_left_mono) simp_all
      then have "js_le (fin_result (k / b)) (fin_result (k / a))"
        by (rule js_le_fin_result_mono)
      then show ?thesis using Fin a b by simp
    qed (use cap a b in auto)
    with True pos show ?thesis by (simp only: if_True simp_thms)
  qed
qed

text \<open>One pair: a tributary area \<open>t\<close> that is not negative under two finite grid
  loads.\<close>

lemma load_order:
  assumes "js_le (Fin 0) (Fin x)" and "g1 \<le> g2"
  shows "js_le (js_mul (Fin x) (Fin g1)) (js_mul (Fin x) (Fin g2))"
proof -
  from assms have "x * g1 \<le> x * g2" by (intro mult_left_mono) simp_all
  then show ?thesis by (simp add: js_le_fin_result_mono)
qed

lemma load_step:
  assumes t: "js_le (Fin 0) t" and cap: "js_le (Fin 0) cap" and g: "g1 \<le> g2"
  defines "l1 \<equiv> js_mul t (Fin g1)" and "l2 \<equiv> js_mul t (Fin g2)"
  shows "(\<not> (isFinite l1 \<and> js_le l1 cap) \<and> l1 \<noteq> NInf \<longrightarrow> \<not> (isFinite l2 \<and> js_le l2 cap))
       \<and> (l2 \<noteq> PInf \<longrightarrow>
            js_le (if isFinite l2 \<and> js_lt (Fin 0) l2 then js_div cap l2 else PInf)
                  (if isFinite l1 \<and> js_lt (Fin 0) l1 then js_div cap l1 else PInf))"
proof (cases t)
  case (Fin x)
  have le: "js_le l1 l2"
    unfolding l1_def l2_def Fin using t g unfolding Fin by (rule load_order)
  show ?thesis
    using fail_step [OF le cap] safety_step [OF le cap] by blast
next
  case PInf
  then show ?thesis
    by (auto simp: l1_def l2_def)
qed (use t in auto)

lemma load_monotone_pair:
  assumes "js_lt (Fin 0) ch" "js_lt (Fin 0) cl" "js_le (Fin 0) cap" "g1 \<le> g2"
  shows "(\<not> pass (make_combo (Fin g1) cap ch cl)
            \<and> loadPerClip (make_combo (Fin g1) cap ch cl) \<noteq> NInf
            \<longrightarrow> \<not> pass (make_combo (Fin g2) cap ch cl))
       \<and> (loadPerClip (make_combo (Fin g2) cap ch cl) \<noteq> PInf
            \<longrightarrow> js_le (safety (make_combo (Fin g2) cap ch cl))
                      (safety (make_combo (Fin g1) cap ch cl)))"
  using load_step [OF trib_nonneg [OF assms(1,2)] assms(3,4)]
  by (simp only: pass_make_combo safety_make_combo make_combo_simps)

text \<open>
  Claim C8, as the code has it.  With positive spacing candidates, a capacity that is not
  negative and finite grid loads \<open>g1 <= g2\<close>, the two enumerations list the same pairs
  in the same order, and for each of them: if it fails under \<open>g1\<close> with a load that
  has not overflowed to \<open>-\<infinity>\<close>, it fails under \<open>g2\<close>; and unless its load under
  \<open>g2\<close> has overflowed to \<open>+\<infinity>\<close>, its safety factor under \<open>g2\<close> is at most
  that under \<open>g1\<close>.
\<close>

theorem load_monotonicity:
  assumes "positive_candidates p" and "js_le (Fin 0) (clipCap p)" and "g1 \<le> g2"
  shows "length (calcCombos (p\<lparr>gridPsf := Fin g2\<rparr>)) = length (calcCombos (p\<lparr>gridPsf := Fin g1\<rparr>))
       \<and> (\<forall>i. i < length (calcCombos (p\<lparr>gridPsf := Fin g1\<rparr>)) \<longrightarrow>
            channelOC (calcCombos (p\<lparr>gridPsf := Fin g2\<rparr>) ! i)
              = channelOC (calcCombos (p\<lparr>gridPsf := Fin g1\<rparr>) ! i)
          \<and> clipOC (calcCombos (p\<lparr>gridPsf := Fin g2\<rparr>) ! i)
              = clipOC (calcCombos (p\<lparr>gridPsf := Fin g1\<rparr>) ! i)
          \<and> (\<not> pass (calcCombos (p\<lparr>gridPsf := Fin g1\<rparr>) ! i)
               \<and> loadPerClip (calcCombos (p\<lparr>gridPsf := Fin g1\<rparr>) ! i) \<noteq> NInf
               \<longrightarrow> \<not> pass (calcCombos (p\<lparr>gridPsf := Fin g2\<rparr>) ! i))
          \<and> (loadPerClip (calcCombos (p\<lparr>gridPsf := Fin g2\<rparr>) ! i) \<noteq> PInf
               \<longrightarrow> js_le (safety (calcCombos (p\<lparr>gridPsf := Fin g2\<rparr>) ! i))
                         (safety (calcCombos (p\<lparr>gridPsf := Fin g1\<rparr>) ! i))))"
proof -
  define sp where
    "sp = array_sort (\<lambda>a b. js_sub (js_mul (fst b) (snd b)) (js_mul (fst a) (snd a)))
            (List.product (channels p) (clips p))"
  have cs: "calcCombos (p\<lparr>gridPsf := Fin g\<rparr>) =
      map (\<lambda>(ch, cl). make_combo (Fin g) (clipCap p) ch cl) sp" for g
    by (simp add: calcCombos_eq_map sp_def)
  have pos: "js_lt (Fin 0) (fst (sp ! i)) \<and> js_lt (Fin 0) (snd (sp ! i))" if "i < length sp" for i
  proof -
    have "sp ! i \<in> set sp" using that by simp
    then have "sp ! i \<in> set (channels p) \<times> set (clips p)" by (simp add: sp_def)
    with assms(1) show ?thesis by (auto simp: positive_candidates_def)
  qed
  show ?thesis
    unfolding cs using pos load_monotone_pair [OF _ _ assms(2,3)]
    by (simp add: split_def)
qed

theorem load_monotonicity_witness:
  "positive_candidates example_params
   \<and> js_le (Fin 0) (clipCap example_params)
   \<and> (5 :: real) \<le> 6
   \<and> map pass (calcCombos (example_params\<lparr>gridPsf := Fin 5\<rparr>)) = [False, True]
   \<and> map pass (calcCombos (example_params\<lparr>gridPsf := Fin 6\<rparr>)) = [False, True]
   \<and> \<not> pass (calcCombos (example_params\<lparr>gridPsf := Fin 6\<rparr>) ! 0)
   \<and> js_le (safety (calcCombos (example_params\<lparr>gridPsf := Fin 6\<rparr>) ! 1))
           (safety (calcCombos (example_params\<lparr>gridPsf := Fin 5\<rparr>) ! 1))"
proof -
  let ?p1 = "example_params\<lparr>gridPsf := Fin 5\<rparr>"
  let ?p2 = "example_params\<lparr>gridPsf := Fin 6\<rparr>"
  have cap: "js_le (Fin 0) (clipCap example_params)"
    by (simp add: example_params_def)
  have g: "(5 :: real) \<le> 6" by simp
  note mono = load_monotonicity [OF positive_example cap g, THEN conjunct2]
  have len: "length (calcCombos ?p1) = 2"
    by (simp add: calcCombos_example_at)
  have p1: "map pass (calcCombos ?p1) = [False, True]"
    by (simp add: calcCombos_example_at pass_make_combo)
  have p2: "map pass (calcCombos ?p2) = [False, True]"
    by (simp add: calcCombos_example_at pass_make_combo)
  have l1: "loadPerClip (calcCombos ?p1 ! 0) \<noteq> NInf"
    by (simp add: calcCombos_example_at)
  have f1: "\<not> pass (calcCombos ?p1 ! 0)"
    by (simp add: calcCombos_example_at pass_make_combo)
  have fail: "\<not> pass (calcCombos ?p2 ! 0)"
    using mono [rule_format, of 0] len f1 l1 by simp
  have l2: "loadPerClip (calcCombos ?p2 ! 1) \<noteq> PInf"
    by (simp add: calcCombos_example_at)
  have saf: "js_le (safety (calcCombos ?p2 ! 1)) (safety (calcCombos ?p1 ! 1))"
    using mono [rule_format, of 1] len l2 by simp
  from positive_example cap g p1 p2 fail saf show ?thesis by blast
qed

text \<open>
  Two finite grid loads, 1 and \<open>2^1023\<close>, on a tributary area of 8: under the larger
  one the load overflows and the safety factor rises from 4.5 to \<open>+\<infinity>\<close>.  And from
  \<open>-2^1023\<close> to 1: the load \<open>-\<infinity>\<close> fails, the load 8 passes.
\<close>

theorem load_monotonicity_counterexample:
  "(1 :: real) \<le> 2 ^ 1023
   \<and> calcCombos (single_pair_params (Fin 1)) =
       [\<lparr>channelOC = Fin 24, clipOC = Fin 48, tribAreaFt2 = Fin 8, loadPerClip = Fin 8,
         pass = True, safety = Fin (9 / 2)\<rparr>]
   \<and> calcCombos (single_pair_params (Fin (2 ^ 1023))) =
       [\<lparr>channelOC = Fin 24, clipOC = Fin 48, tribAreaFt2 = Fin 8, loadPerClip = PInf,
         pass = False, safety = PInf\<rparr>]
   \<and> \<not> js_le PInf (Fin (9 / 2))
   \<and> - (2 ^ 1023) \<le> (1 :: real)
   \<and> calcCombos (single_pair_params (Fin (- (2 ^ 1023)))) =
       [\<lparr>channelOC = Fin 24, clipOC = Fin 48, tribAreaFt2 = Fin 8, loadPerClip = NInf,
         pass = False, safety = PInf\<rparr>]"
proof -
  have trib: "js_div (js_mul (Fin 24) (Fin 48)) (Fin 144) = Fin 8"
    by simp
  have "overflow_bound \<le> 8 * 2 ^ 1023"
    by (simp add: overflow_bound_def)
  then have "fin_result (8 * 2 ^ 1023) = PInf"
    by (simp only: fin_result_def if_True)
  then have up: "js_mul (Fin 8) (Fin (2 ^ 1023)) = PInf"
    by (simp only: js_mul.simps)
  have "8 * - (2 ^ 1023) \<le> - overflow_bound" "\<not> overflow_bound \<le> 8 * - (2 ^ 1023)"
    by (simp_all add: overflow_bound_def)
  then have "fin_result (8 * - (2 ^ 1023)) = NInf"
    by (simp only: fin_result_def if_True if_False)
  then have down: "js_mul (Fin 8) (Fin (- (2 ^ 1023))) = NInf"
    by (simp only: js_mul.simps)
  have one: "calcCombos (single_pair_params (Fin 1)) =
       [\<lparr>channelOC = Fin 24, clipOC = Fin 48, tribAreaFt2 = Fin 8, loadPerClip = Fin 8,
         pass = True, safety = Fin (9 / 2)\<rparr>]"
    unfolding calcCombos_single_pair by (simp add: make_combo_def Let_def)
  have big: "calcCombos (single_pair_params (Fin (2 ^ 1023))) =
       [\<lparr>channelOC = Fin 24, clipOC = Fin 48, tribAreaFt2 = Fin 8, loadPerClip = PInf,
         pass = False, safety = PInf\<rparr>]"
    unfolding calcCombos_single_pair make_combo_def Let_def trib up by simp
  have neg: "calcCombos (single_pair_params (Fin (- (2 ^ 1023)))) =
       [\<lparr>channelOC = Fin 24, clipOC = Fin 48, tribAreaFt2 = Fin 8, loadPerClip = NInf,
         pass = False, safety = PInf\<rparr>]"
    unfolding calcCombos_single_pair make_combo_def Let_def trib down by simp
  have "(1 :: real) \<le> 2 ^ 1023" "- (2 ^ 1023) \<le> (1 :: real)" "\<not> js_le PInf (Fin (9 / 2))"
    by simp_all
  with one big neg show ?thesis by blast
qed

end
